theory Spec2Isabelle
  imports Main "HOL-Library.AList"
begin

section \<open>The file organizer (Organazer.py) as a shallow embedding\<close>

text \<open>
  The program moves the regular files of one folder into category sub-folders chosen by
  file extension, deletes a file that is an exact copy of the file already at its
  destination, and renames on a name collision. A second pass groups every file under
  the folder by content hash and deletes all but one file of each group.

  Everything the program reads from its environment is explicit here: the file system is
  a value, the hash function and the clock are parameters, and every exception the
  Python raises is a value of type \<open>error\<close>.
\<close>

subsection \<open>Paths and names\<close>

text \<open>
  A path is the list of its components; \<open>p / name\<close> of pathlib is \<open>p @ [name]\<close>.
  File names are byte strings; \<open>str.lower\<close> is modelled on ASCII letters.
\<close>

type_synonym path = "string list"

definition name :: "path \<Rightarrow> string" where
  "name p = (if p = [] then [] else last p)"

definition parent :: "path \<Rightarrow> path" where
  "parent p = butlast p"

definition lower_char :: "char \<Rightarrow> char" where
  "lower_char c =
     (case map_of (zip ''ABCDEFGHIJKLMNOPQRSTUVWXYZ'' ''abcdefghijklmnopqrstuvwxyz'') c of
        Some l \<Rightarrow> l
      | None \<Rightarrow> c)"

definition lower :: "string \<Rightarrow> string" where
  "lower s = map lower_char s"

definition startswith_dot :: "string \<Rightarrow> bool" where
  "startswith_dot s = (case s of [] \<Rightarrow> False | c # _ \<Rightarrow> c = CHR ''.'')"

text \<open>
  \<open>original_name.rsplit('.', 1)\<close>: the name split at its last dot. \<open>None\<close> as second
  component is the one-element list Python returns for a name without a dot.
\<close>

definition rsplit_dot :: "string \<Rightarrow> string \<times> string option" where
  "rsplit_dot s =
     (if CHR ''.'' \<in> set s
      then (rev (tl (dropWhile (\<lambda>c. c \<noteq> CHR ''.'') (rev s))),
            Some (rev (takeWhile (\<lambda>c. c \<noteq> CHR ''.'') (rev s))))
      else (s, None))"

text \<open>
  \<open>Path.suffix\<close>: with \<open>i = name.rfind('.')\<close>, the text from the last dot on when
  \<open>0 < i < len(name) - 1\<close>, and the empty string otherwise.
\<close>

definition suffix :: "path \<Rightarrow> string" where
  "suffix p =
     (case rsplit_dot (name p) of
        (b, Some e) \<Rightarrow> if b \<noteq> [] \<and> e \<noteq> [] then CHR ''.'' # e else []
      | (b, None) \<Rightarrow> [])"

text \<open>\<open>str(counter)\<close> for a natural number: its decimal digits.\<close>

definition digit :: "nat \<Rightarrow> char" where
  "digit d = ''0123456789'' ! d"

fun str_nat :: "nat \<Rightarrow> string" where
  "str_nat n = (if n < 10 then [digit n] else str_nat (n div 10) @ [digit (n mod 10)])"

declare str_nat.simps [simp del]

subsection \<open>The file system\<close>

text \<open>
  A regular file has its bytes, its modification time, and two flags for what the
  operating system may refuse: \<open>readable\<close> (opening it for reading succeeds) and
  \<open>locked\<close> (unlinking or renaming it fails with PermissionError, and nothing changes).
  A directory has the size \<open>stat\<close> reports for it; in a \<open>ReadOnlyDir\<close> the operating
  system refuses to create, remove or rename an entry (PermissionError, and nothing
  changes). The file system is an association list from absolute paths to nodes; a
  directory is listed in the order of that list. Symbolic links are not part of the
  model: every path names a regular file or a directory, or nothing.
\<close>

record file_data =
  content :: string
  mtime :: int
  readable :: bool
  locked :: bool

datatype node = File file_data | Dir nat | ReadOnlyDir nat

type_synonym filesystem = "(path \<times> node) list"

datatype error =
  FileNotFoundError | NotADirectoryError | IsADirectoryError | PermissionError
  | FileExistsError | ShutilError | IndexError

definition lookup :: "filesystem \<Rightarrow> path \<Rightarrow> node option" where
  "lookup fs p = map_of fs p"

definition exists :: "filesystem \<Rightarrow> path \<Rightarrow> bool" where
  "exists fs p = (lookup fs p \<noteq> None)"

definition is_file :: "filesystem \<Rightarrow> path \<Rightarrow> bool" where
  "is_file fs p = (case lookup fs p of Some (File d) \<Rightarrow> True | _ \<Rightarrow> False)"

definition is_dir :: "filesystem \<Rightarrow> path \<Rightarrow> bool" where
  "is_dir fs p =
     (case lookup fs p of Some (Dir z) \<Rightarrow> True | Some (ReadOnlyDir z) \<Rightarrow> True | _ \<Rightarrow> False)"

definition read_only :: "filesystem \<Rightarrow> path \<Rightarrow> bool" where
  "read_only fs d = (case lookup fs d of Some (ReadOnlyDir z) \<Rightarrow> True | _ \<Rightarrow> False)"

definition st_size :: "filesystem \<Rightarrow> path \<Rightarrow> error + nat" where
  "st_size fs p =
     (case lookup fs p of
        None \<Rightarrow> Inl FileNotFoundError
      | Some (File d) \<Rightarrow> Inr (length (content d))
      | Some (Dir z) \<Rightarrow> Inr z
      | Some (ReadOnlyDir z) \<Rightarrow> Inr z)"

definition st_mtime :: "filesystem \<Rightarrow> path \<Rightarrow> error + int" where
  "st_mtime fs p =
     (case lookup fs p of
        None \<Rightarrow> Inl FileNotFoundError
      | Some (File d) \<Rightarrow> Inr (mtime d)
      | Some (Dir z) \<Rightarrow> Inr 0
      | Some (ReadOnlyDir z) \<Rightarrow> Inr 0)"

definition iterdir :: "filesystem \<Rightarrow> path \<Rightarrow> error + path list" where
  "iterdir fs d =
     (case lookup fs d of
        None \<Rightarrow> Inl FileNotFoundError
      | Some (File x) \<Rightarrow> Inl NotADirectoryError
      | Some (Dir z) \<Rightarrow> Inr (filter (\<lambda>p. p \<noteq> [] \<and> parent p = d) (map fst fs))
      | Some (ReadOnlyDir z) \<Rightarrow> Inr (filter (\<lambda>p. p \<noteq> [] \<and> parent p = d) (map fst fs)))"

text \<open>
  \<open>rglob('*')\<close>: every path below the folder, and nothing when the folder is not a
  directory.
\<close>

definition rglob :: "filesystem \<Rightarrow> path \<Rightarrow> path list" where
  "rglob fs d =
     (if is_dir fs d
      then filter (\<lambda>p. length d < length p \<and> take (length d) p = d) (map fst fs)
      else [])"

definition unlink :: "filesystem \<Rightarrow> path \<Rightarrow> error + filesystem" where
  "unlink fs p =
     (case lookup fs p of
        None \<Rightarrow> Inl FileNotFoundError
      | Some (Dir z) \<Rightarrow> Inl IsADirectoryError
      | Some (ReadOnlyDir z) \<Rightarrow> Inl IsADirectoryError
      | Some (File d) \<Rightarrow>
          if locked d \<or> read_only fs (parent p) then Inl PermissionError
          else Inr (AList.delete p fs))"

text \<open>
  \<open>os.mkdir\<close>, and \<open>Path.mkdir(parents=True, exist_ok=True)\<close> on top of it: a missing
  parent is created first, an existing directory is accepted, anything else raises;
  so does a parent that is read-only.
\<close>

definition os_mkdir :: "nat \<Rightarrow> filesystem \<Rightarrow> path \<Rightarrow> error + filesystem" where
  "os_mkdir z fs p =
     (if exists fs p then Inl FileExistsError
      else case lookup fs (parent p) of
        None \<Rightarrow> Inl FileNotFoundError
      | Some (File d) \<Rightarrow> Inl NotADirectoryError
      | Some (ReadOnlyDir y) \<Rightarrow> Inl PermissionError
      | Some (Dir y) \<Rightarrow> Inr (fs @ [(p, Dir z)]))"

definition mkdir_exist_ok :: "nat \<Rightarrow> filesystem \<Rightarrow> path \<Rightarrow> error + filesystem" where
  "mkdir_exist_ok z fs p =
     (case os_mkdir z fs p of
        Inr fs' \<Rightarrow> Inr fs'
      | Inl FileNotFoundError \<Rightarrow> Inl FileNotFoundError
      | Inl e \<Rightarrow> (if is_dir fs p then Inr fs else Inl e))"

function mkdir_parents :: "nat \<Rightarrow> filesystem \<Rightarrow> path \<Rightarrow> error + filesystem" where
  "mkdir_parents z fs p =
     (case os_mkdir z fs p of
        Inr fs' \<Rightarrow> Inr fs'
      | Inl FileNotFoundError \<Rightarrow>
          (if p = [] then Inl FileNotFoundError
           else case mkdir_parents z fs (parent p) of
                  Inl e \<Rightarrow> Inl e
                | Inr fs' \<Rightarrow> mkdir_exist_ok z fs' p)
      | Inl e \<Rightarrow> (if is_dir fs p then Inr fs else Inl e))"
  by pat_completeness auto
termination
  by (relation "measure (\<lambda>(z, fs, p). length p)") (auto simp: parent_def)

declare mkdir_parents.simps [simp del]

text \<open>
  \<open>shutil.move\<close> of a regular file: into the destination when that is a directory
  (an error when the name is taken there), over the destination otherwise. Moving a
  directory is outside the model: the organizer only moves the regular files of its
  snapshot.
\<close>

definition shutil_move :: "filesystem \<Rightarrow> path \<Rightarrow> path \<Rightarrow> error + filesystem" where
  "shutil_move fs src dst =
     (case lookup fs src of
        None \<Rightarrow> Inl FileNotFoundError
      | Some (Dir z) \<Rightarrow> Inl IsADirectoryError
      | Some (ReadOnlyDir z) \<Rightarrow> Inl IsADirectoryError
      | Some (File d) \<Rightarrow>
          (let real_dst = (if is_dir fs dst then dst @ [name src] else dst) in
           if is_dir fs dst \<and> exists fs real_dst then Inl ShutilError
           else if \<not> is_dir fs (parent real_dst) then Inl FileNotFoundError
           else if locked d \<or> read_only fs (parent src) \<or> read_only fs (parent real_dst)
             then Inl PermissionError
           else Inr (AList.update real_dst (File d) (AList.delete src fs))))"

subsection \<open>The environment and the organizer's state\<close>

text \<open>
  \<open>md5\<close> is \<open>hashlib.md5(...).hexdigest()\<close> of a byte string; \<open>strftime_now\<close> is what
  \<open>datetime.now().strftime("%Y%m%d_%H%M%S_%f")\<close> returns at the n-th reading of the
  clock and \<open>time_now\<close> the time stamp a file written then gets; \<open>dir_size\<close> is the
  size of a fresh directory; \<open>json_dump\<close> renders the report (time stamp, source folder,
  dry-run flag, statistics, extension counts) as text.
\<close>

record stats =
  processed :: nat
  moved :: nat
  renamed :: nat
  duplicates_found :: nat
  duplicates_removed :: nat
  errors :: nat
  skipped :: nat

record env =
  md5 :: "string \<Rightarrow> string"
  strftime_now :: "nat \<Rightarrow> string"
  time_now :: "nat \<Rightarrow> int"
  dir_size :: nat
  json_dump :: "string \<Rightarrow> path \<Rightarrow> bool \<Rightarrow> stats \<Rightarrow> (string \<times> nat) list \<Rightarrow> string"

record world =
  fs :: filesystem
  tick :: nat

record organizer =
  source_folder :: path
  dry_run :: bool
  categories :: "(string \<times> string list) list"
  stat :: stats
  hash_cache :: "path \<rightharpoonup> string"

definition get_category_mappings :: "(string \<times> string list) list" where
  "get_category_mappings =
     [(''Images'', [''.jpg'', ''.jpeg'', ''.png'', ''.gif'', ''.bmp'', ''.svg'', ''.webp'', ''.tiff'']),
      (''Documents'', [''.pdf'', ''.docx'', ''.doc'', ''.txt'', ''.rtf'', ''.xlsx'', ''.xls'',
                       ''.pptx'', ''.odt'', ''.odp'', ''.ods'']),
      (''Archives'', [''.zip'', ''.rar'', ''.7z'', ''.tar'', ''.gz'', ''.bz2'', ''.xz'']),
      (''Scripts'', [''.py'', ''.js'', ''.java'', ''.cpp'', ''.c'', ''.h'', ''.html'', ''.css'',
                     ''.php'', ''.sh'', ''.bat'']),
      (''Videos'', [''.mp4'', ''.avi'', ''.mov'', ''.mkv'', ''.wmv'', ''.flv'', ''.webm'', ''.m4v'']),
      (''Audio'', [''.mp3'', ''.wav'', ''.flac'', ''.aac'', ''.ogg'', ''.m4a'', ''.wma'']),
      (''Executables'', [''.exe'', ''.msi'', ''.dmg'', ''.apk'', ''.app'', ''.deb'', ''.rpm'']),
      (''Fonts'', [''.ttf'', ''.otf'', ''.woff'', ''.woff2'', ''.eot'']),
      (''Data'', [''.csv'', ''.json'', ''.xml'', ''.sql'', ''.db'', ''.sqlite'', ''.yaml'', ''.yml'']),
      (''Presentations'', [''.ppt'', ''.pptx'', ''.key'']),
      (''Ebooks'', [''.epub'', ''.mobi'', ''.azw3'']),
      (''Torrents'', [''.torrent'']),
      (''Certificates'', [''.pem'', ''.crt'', ''.key'', ''.cer'', ''.pfx'']),
      (''Configs'', [''.ini'', ''.cfg'', ''.conf'', ''.properties''])]"

definition init_stats :: stats where
  "init_stats = \<lparr>processed = 0, moved = 0, renamed = 0, duplicates_found = 0,
                  duplicates_removed = 0, errors = 0, skipped = 0\<rparr>"

definition FileOrganizer_init :: "path \<Rightarrow> bool \<Rightarrow> organizer" where
  "FileOrganizer_init src dry =
     \<lparr>source_folder = src, dry_run = dry, categories = get_category_mappings,
      stat = init_stats, hash_cache = Map.empty\<rparr>"

subsection \<open>Hashing and the duplicate test\<close>

text \<open>\<open>get_file_hash\<close>: the digest of the bytes, and the empty string when the file cannot be read.\<close>

definition get_file_hash :: "env \<Rightarrow> filesystem \<Rightarrow> path \<Rightarrow> string" where
  "get_file_hash E fsys p =
     (case lookup fsys p of
        Some (File d) \<Rightarrow> if readable d then md5 E (content d) else []
      | _ \<Rightarrow> [])"

text \<open>
  \<open>is_exact_duplicate\<close>: sizes first, then the two hashes through the cache. The result
  is the truth value of \<open>hash1 and hash2 and hash1 == hash2\<close>.
\<close>

definition is_exact_duplicate ::
  "env \<Rightarrow> path \<Rightarrow> path \<Rightarrow> organizer \<Rightarrow> world \<Rightarrow> bool \<times> organizer" where
  "is_exact_duplicate E file1 file2 s w =
     (case st_size (fs w) file1 of
        Inl e \<Rightarrow> (False, s)
      | Inr z1 \<Rightarrow>
         (case st_size (fs w) file2 of
            Inl e \<Rightarrow> (False, s)
          | Inr z2 \<Rightarrow>
             if z1 \<noteq> z2 then (False, s)
             else
               let (hash1, s1) =
                     (case hash_cache s file1 of
                        None \<Rightarrow> (let h = get_file_hash E (fs w) file1
                                 in (h, s\<lparr>hash_cache := (hash_cache s)(file1 \<mapsto> h)\<rparr>))
                      | Some h \<Rightarrow> (h, s));
                   (hash2, s2) =
                     (case hash_cache s1 file2 of
                        None \<Rightarrow> (let h = get_file_hash E (fs w) file2
                                 in (h, s1\<lparr>hash_cache := (hash_cache s1)(file2 \<mapsto> h)\<rparr>))
                      | Some h \<Rightarrow> (h, s1))
               in (hash1 \<noteq> [] \<and> hash2 \<noteq> [] \<and> hash1 = hash2, s2)))"

subsection \<open>Counters\<close>

definition inc_moved :: "organizer \<Rightarrow> organizer" where
  "inc_moved s = s\<lparr>stat := (stat s)\<lparr>moved := moved (stat s) + 1\<rparr>\<rparr>"

definition inc_renamed :: "organizer \<Rightarrow> organizer" where
  "inc_renamed s = s\<lparr>stat := (stat s)\<lparr>renamed := renamed (stat s) + 1\<rparr>\<rparr>"

definition inc_duplicates_found :: "organizer \<Rightarrow> organizer" where
  "inc_duplicates_found s = s\<lparr>stat := (stat s)\<lparr>duplicates_found := duplicates_found (stat s) + 1\<rparr>\<rparr>"

definition add_duplicates_removed :: "nat \<Rightarrow> organizer \<Rightarrow> organizer" where
  "add_duplicates_removed k s =
     s\<lparr>stat := (stat s)\<lparr>duplicates_removed := duplicates_removed (stat s) + k\<rparr>\<rparr>"

definition inc_errors :: "organizer \<Rightarrow> organizer" where
  "inc_errors s = s\<lparr>stat := (stat s)\<lparr>errors := errors (stat s) + 1\<rparr>\<rparr>"

definition inc_skipped :: "organizer \<Rightarrow> organizer" where
  "inc_skipped s = s\<lparr>stat := (stat s)\<lparr>skipped := skipped (stat s) + 1\<rparr>\<rparr>"

definition set_processed :: "nat \<Rightarrow> organizer \<Rightarrow> organizer" where
  "set_processed k s = s\<lparr>stat := (stat s)\<lparr>processed := k\<rparr>\<rparr>"

subsection \<open>\<open>get_unique_filename\<close>\<close>

text \<open>
  What the loop does with a destination that holds an exact copy: count it, and unless
  this is a dry run delete the source file, counting the deletion or its failure.
\<close>

definition remove_found_duplicate :: "path \<Rightarrow> organizer \<Rightarrow> world \<Rightarrow> organizer \<times> world" where
  "remove_found_duplicate file_path s w =
     (let s1 = inc_duplicates_found s in
      if \<not> dry_run s1 then
        (case unlink (fs w) file_path of
           Inr fs' \<Rightarrow> (add_duplicates_removed 1 s1, w\<lparr>fs := fs'\<rparr>)
         | Inl e \<Rightarrow> (inc_errors s1, w))
      else (s1, w))"

text \<open>
  The \<open>while new_path.exists()\<close> loop. Its arguments are the loop's variables; \<open>n\<close>
  counts the executions of the loop body and is returned with the result, which is
  \<open>None\<close> for a duplicate and the destination path otherwise.
\<close>

function unique_loop ::
  "env \<Rightarrow> path \<Rightarrow> path \<Rightarrow> string \<Rightarrow> string \<Rightarrow> nat \<Rightarrow> path \<Rightarrow> nat \<Rightarrow> organizer \<Rightarrow> world
     \<Rightarrow> path option \<times> nat \<times> organizer \<times> world" where
  "unique_loop E file_path target_folder base_name extension counter new_path n s w =
     (if exists (fs w) new_path then
        (let (dup, s1) = is_exact_duplicate E file_path new_path s w in
         if dup then
           (let (s2, w2) = remove_found_duplicate file_path s1 w in (None, Suc n, s2, w2))
         else if counter + 1 > 100 then
           (Some (target_folder @ [base_name @ ''_'' @ strftime_now E (tick w) @ extension]),
            Suc n, s1, w\<lparr>tick := tick w + 1\<rparr>)
         else
           unique_loop E file_path target_folder base_name extension (counter + 1)
             (target_folder @ [base_name @ ''_'' @ str_nat counter @ extension]) (Suc n) s1 w)
      else (Some new_path, n, s, w))"
  by pat_completeness auto
termination
  by (relation "measure (\<lambda>(E, fp, tf, b, e, counter, np, n, s, w). 101 - counter)") auto

definition get_unique_filename_iters ::
  "env \<Rightarrow> path \<Rightarrow> path \<Rightarrow> organizer \<Rightarrow> world \<Rightarrow> path option \<times> nat \<times> organizer \<times> world" where
  "get_unique_filename_iters E file_path target_folder s w =
     (let original_name = name file_path;
          (base_name, ext) = rsplit_dot original_name;
          extension = (case ext of Some e \<Rightarrow> CHR ''.'' # e | None \<Rightarrow> [])
      in unique_loop E file_path target_folder base_name extension 1
           (target_folder @ [original_name]) 0 s w)"

definition get_unique_filename ::
  "env \<Rightarrow> path \<Rightarrow> path \<Rightarrow> organizer \<Rightarrow> world \<Rightarrow> path option \<times> organizer \<times> world" where
  "get_unique_filename E file_path target_folder s w =
     (case get_unique_filename_iters E file_path target_folder s w of
        (r, n, s', w') \<Rightarrow> (r, s', w'))"

subsection \<open>\<open>process_file\<close> and \<open>organize_files\<close>\<close>

definition check_case_insensitive_duplicate :: "filesystem \<Rightarrow> string \<Rightarrow> path \<Rightarrow> error + bool" where
  "check_case_insensitive_duplicate fsys filename target_folder =
     (case iterdir fsys target_folder of
        Inl e \<Rightarrow> Inl e
      | Inr items \<Rightarrow>
          Inr (list_ex (\<lambda>existing_file. is_file fsys existing_file
                          \<and> lower (name existing_file) = lower filename) items))"

fun create_category_folders_loop ::
  "env \<Rightarrow> string list \<Rightarrow> organizer \<Rightarrow> world \<Rightarrow> (error + unit) \<times> world" where
  "create_category_folders_loop E [] s w = (Inr (), w)"
| "create_category_folders_loop E (category # rest) s w =
     (let category_path = source_folder s @ [category] in
      if \<not> exists (fs w) category_path then
        (if \<not> dry_run s then
           (case mkdir_parents (dir_size E) (fs w) category_path of
              Inl e \<Rightarrow> (Inl e, w)
            | Inr fs' \<Rightarrow> create_category_folders_loop E rest s (w\<lparr>fs := fs'\<rparr>))
         else create_category_folders_loop E rest s w)
      else create_category_folders_loop E rest s w)"

definition create_category_folders :: "env \<Rightarrow> organizer \<Rightarrow> world \<Rightarrow> (error + unit) \<times> world" where
  "create_category_folders E s w = create_category_folders_loop E (map fst (categories s)) s w"

text \<open>
  The body of \<open>if file_ext in extensions\<close>: every way through it leaves the loop over
  the categories, by \<open>break\<close> or by the exception of the case-insensitive check, which
  is outside the \<open>try\<close>.
\<close>

definition place_in_category ::
  "env \<Rightarrow> path \<Rightarrow> string \<Rightarrow> organizer \<Rightarrow> world \<Rightarrow> (error + unit) \<times> organizer \<times> world" where
  "place_in_category E file_path category s w =
     (let target_folder = source_folder s @ [category] in
      case get_unique_filename E file_path target_folder s w of
        (None, s1, w1) \<Rightarrow> (Inr (), s1, w1)
      | (Some unique_path, s1, w1) \<Rightarrow>
          (case check_case_insensitive_duplicate (fs w1) (name unique_path) target_folder of
             Inl e \<Rightarrow> (Inl e, s1, w1)
           | Inr warn \<Rightarrow>
               if \<not> dry_run s1 then
                 (case shutil_move (fs w1) file_path unique_path of
                    Inl e \<Rightarrow> (Inr (), inc_errors s1, w1)
                  | Inr fs' \<Rightarrow>
                      (Inr (),
                       (if name file_path \<noteq> name unique_path
                        then inc_renamed (inc_moved s1) else inc_moved s1),
                       w1\<lparr>fs := fs'\<rparr>))
               else (Inr (), s1, w1)))"

fun process_categories ::
  "env \<Rightarrow> path \<Rightarrow> string \<Rightarrow> (string \<times> string list) list \<Rightarrow> organizer \<Rightarrow> world
     \<Rightarrow> (error + unit) \<times> organizer \<times> world" where
  "process_categories E file_path file_ext [] s w = (Inr (), inc_skipped s, w)"
| "process_categories E file_path file_ext ((category, extensions) # rest) s w =
     (if file_ext \<in> set extensions then place_in_category E file_path category s w
      else process_categories E file_path file_ext rest s w)"

definition process_file ::
  "env \<Rightarrow> path \<Rightarrow> organizer \<Rightarrow> world \<Rightarrow> (error + unit) \<times> organizer \<times> world" where
  "process_file E file_path s w =
     process_categories E file_path (lower (suffix file_path)) (categories s) s w"

definition files_to_process :: "filesystem \<Rightarrow> path list \<Rightarrow> path list" where
  "files_to_process fsys items =
     filter (\<lambda>item. is_file fsys item \<and> \<not> startswith_dot (name item) \<and> suffix item \<noteq> ''.log'')
       items"

fun process_all ::
  "env \<Rightarrow> path list \<Rightarrow> organizer \<Rightarrow> world \<Rightarrow> (error + unit) \<times> organizer \<times> world" where
  "process_all E [] s w = (Inr (), s, w)"
| "process_all E (file_path # rest) s w =
     (case process_file E file_path s w of
        (Inl e, s1, w1) \<Rightarrow> (Inl e, s1, w1)
      | (Inr u, s1, w1) \<Rightarrow> process_all E rest s1 w1)"

definition organize_files ::
  "env \<Rightarrow> organizer \<Rightarrow> world \<Rightarrow> (error + bool) \<times> organizer \<times> world" where
  "organize_files E s w =
     (if \<not> exists (fs w) (source_folder s) then (Inr False, s, w)
      else
        case create_category_folders E s w of
          (Inl e, w1) \<Rightarrow> (Inl e, s, w1)
        | (Inr u, w1) \<Rightarrow>
            (case iterdir (fs w1) (source_folder s) of
               Inl e \<Rightarrow> (Inl e, s, w1)
             | Inr items \<Rightarrow>
                 (let files = files_to_process (fs w1) items;
                      s1 = set_processed (length files) s
                  in case process_all E files s1 w1 of
                       (Inl e, s2, w2) \<Rightarrow> (Inl e, s2, w2)
                     | (Inr u, s2, w2) \<Rightarrow> (Inr True, s2, w2))))"

subsection \<open>The bulk pass: \<open>find_all_duplicates\<close> and \<open>remove_duplicates\<close>\<close>

text \<open>
  The dictionary from hash to file list keeps its insertion order, so it is an
  association list: a new hash goes to the end, a known hash gets the file appended.
\<close>

definition add_to_group ::
  "(string \<times> path list) list \<Rightarrow> string \<Rightarrow> path \<Rightarrow> (string \<times> path list) list" where
  "add_to_group duplicates file_hash file_path =
     (case map_of duplicates file_hash of
        None \<Rightarrow> duplicates @ [(file_hash, [file_path])]
      | Some files \<Rightarrow> AList.update file_hash (files @ [file_path]) duplicates)"

fun hash_all ::
  "env \<Rightarrow> filesystem \<Rightarrow> path list \<Rightarrow> (string \<times> path list) list \<Rightarrow> (string \<times> path list) list" where
  "hash_all E fsys [] duplicates = duplicates"
| "hash_all E fsys (file_path # rest) duplicates =
     (let file_hash = get_file_hash E fsys file_path in
      hash_all E fsys rest
        (if file_hash \<noteq> [] then add_to_group duplicates file_hash file_path else duplicates))"

definition find_all_duplicates ::
  "env \<Rightarrow> bool \<Rightarrow> organizer \<Rightarrow> world \<Rightarrow> error + (string \<times> path list) list" where
  "find_all_duplicates E recursive s w =
     (case (if recursive then Inr (rglob (fs w) (source_folder s))
            else iterdir (fs w) (source_folder s)) of
        Inl e \<Rightarrow> Inl e
      | Inr listed \<Rightarrow>
          (let all_files = filter (\<lambda>f. is_file (fs w) f \<and> \<not> startswith_dot (name f)) listed
           in Inr (filter (\<lambda>(h, files). length files > 1) (hash_all E (fs w) all_files []))))"

fun with_mtime :: "filesystem \<Rightarrow> path list \<Rightarrow> error + (path \<times> int) list" where
  "with_mtime fsys [] = Inr []"
| "with_mtime fsys (f # rest) =
     (case st_mtime fsys f of
        Inl e \<Rightarrow> Inl e
      | Inr t \<Rightarrow> (case with_mtime fsys rest of Inl e \<Rightarrow> Inl e | Inr ts \<Rightarrow> Inr ((f, t) # ts)))"

text \<open>\<open>list.sort\<close> is stable, as \<open>sort_key\<close> is; \<open>[::-1]\<close> reverses.\<close>

definition keep_order :: "bool \<Rightarrow> (path \<times> int) list \<Rightarrow> (path \<times> int) list" where
  "keep_order keep_oldest files_with_mtime =
     (let sorted_files = sort_key snd files_with_mtime in
      if \<not> keep_oldest then rev sorted_files else sorted_files)"

fun delete_rest :: "bool \<Rightarrow> path list \<Rightarrow> filesystem \<Rightarrow> nat \<Rightarrow> filesystem \<times> nat" where
  "delete_rest dry [] fsys removed_count = (fsys, removed_count)"
| "delete_rest dry (file_path # rest) fsys removed_count =
     (if \<not> dry then
        (case unlink fsys file_path of
           Inr fs' \<Rightarrow> delete_rest dry rest fs' (removed_count + 1)
         | Inl e \<Rightarrow> delete_rest dry rest fsys removed_count)
      else delete_rest dry rest fsys removed_count)"

fun remove_groups ::
  "bool \<Rightarrow> bool \<Rightarrow> (string \<times> path list) list \<Rightarrow> filesystem \<Rightarrow> nat
     \<Rightarrow> (error + unit) \<times> filesystem \<times> nat" where
  "remove_groups dry keep_oldest [] fsys removed_count = (Inr (), fsys, removed_count)"
| "remove_groups dry keep_oldest ((file_hash, files) # rest) fsys removed_count =
     (case with_mtime fsys files of
        Inl e \<Rightarrow> (Inl e, fsys, removed_count)
      | Inr files_with_mtime \<Rightarrow>
          (case keep_order keep_oldest files_with_mtime of
             [] \<Rightarrow> (Inl IndexError, fsys, removed_count)
           | file_to_keep # others \<Rightarrow>
               (let (fs', removed') = delete_rest dry (map fst others) fsys removed_count
                in remove_groups dry keep_oldest rest fs' removed')))"

definition remove_duplicates ::
  "env \<Rightarrow> bool \<Rightarrow> organizer \<Rightarrow> world \<Rightarrow> (error + unit) \<times> organizer \<times> world" where
  "remove_duplicates E keep_oldest s w =
     (case find_all_duplicates E True s w of
        Inl e \<Rightarrow> (Inl e, s, w)
      | Inr duplicates \<Rightarrow>
          if duplicates = [] then (Inr (), s, w)
          else
            (case remove_groups (dry_run s) keep_oldest duplicates (fs w) 0 of
               (Inl e, fs', removed_count) \<Rightarrow> (Inl e, s, w\<lparr>fs := fs'\<rparr>)
             | (Inr u, fs', removed_count) \<Rightarrow>
                 (Inr (), add_duplicates_removed removed_count s, w\<lparr>fs := fs'\<rparr>)))"

subsection \<open>\<open>save_report\<close>\<close>

text \<open>
  \<open>open(path, 'w')\<close> followed by one write: the file is created, which a read-only
  folder refuses, or replaced.
\<close>

definition write_file :: "env \<Rightarrow> world \<Rightarrow> path \<Rightarrow> string \<Rightarrow> error + world" where
  "write_file E w p text =
     (if is_dir (fs w) p then Inl IsADirectoryError
      else if \<not> is_dir (fs w) (parent p) then Inl FileNotFoundError
      else if \<not> exists (fs w) p \<and> read_only (fs w) (parent p) then Inl PermissionError
      else Inr (w\<lparr>fs := AList.update p
                         (File \<lparr>content = text, mtime = time_now E (tick w),
                                readable = True, locked = False\<rparr>) (fs w),
                  tick := tick w + 1\<rparr>))"

definition save_report :: "env \<Rightarrow> path option \<Rightarrow> organizer \<Rightarrow> world \<Rightarrow> (error + unit) \<times> world" where
  "save_report E report_path s w =
     (let report_path =
            (case report_path of
               None \<Rightarrow> source_folder s @ [''organization_report.json'']
             | Some p \<Rightarrow> p);
          report = json_dump E (strftime_now E (tick w)) (source_folder s) (dry_run s) (stat s)
                     (map (\<lambda>(k, v). (k, length v)) (categories s));
          w1 = w\<lparr>tick := tick w + 1\<rparr>
      in if \<not> dry_run s then
           (case write_file E w1 report_path report of
              Inl e \<Rightarrow> (Inl e, w1)
            | Inr w2 \<Rightarrow> (Inr (), w2))
         else (Inr (), w1))"

section \<open>Example inputs\<close>

text \<open>
  A small environment and a few file systems on which the theorems below are run. The
  stand-in for MD5 is injective, so equal hashes mean equal bytes in the examples.
\<close>

definition example_env :: env where
  "example_env =
     \<lparr>md5 = (\<lambda>bytes. ''md5:'' @ bytes),
      strftime_now = (\<lambda>n. ''20240101_120000_'' @ str_nat n),
      time_now = int,
      dir_size = 4096,
      json_dump = (\<lambda>stamp src dry st cats. ''report'')\<rparr>"

definition regular :: "string \<Rightarrow> int \<Rightarrow> node" where
  "regular bytes t = File \<lparr>content = bytes, mtime = t, readable = True, locked = False\<rparr>"

definition unreadable :: "string \<Rightarrow> int \<Rightarrow> node" where
  "unreadable bytes t = File \<lparr>content = bytes, mtime = t, readable = False, locked = False\<rparr>"

definition downloads :: path where
  "downloads = [''home'', ''u'', ''Downloads'']"

definition world_pair :: world where
  "world_pair =
     \<lparr>fs = [([], Dir 4096), ([''home''], Dir 4096), ([''home'', ''u''], Dir 4096),
             (downloads, Dir 4096),
             (downloads @ [''a.txt''], regular ''AAAAA'' 10),
             (downloads @ [''Documents''], Dir 4096),
             (downloads @ [''Documents'', ''a.txt''], regular ''BBBBB'' 5),
             (downloads @ [''Documents'', ''b.txt''], regular ''BBBBBBB'' 6),
             (downloads @ [''x.txt''], unreadable ''CCC'' 1),
             (downloads @ [''Documents'', ''x.txt''], unreadable ''CCC'' 2)],
      tick = 0\<rparr>"

lemmas fs_defs = lookup_def st_size_def exists_def is_file_def is_dir_def read_only_def
  get_file_hash_def
  regular_def unreadable_def downloads_def

section \<open>The duplicate test\<close>

text \<open>
  The hash \<open>is_exact_duplicate\<close> works with for a file: the cached one when the cache has
  an entry for the path, and a fresh \<open>get_file_hash\<close> otherwise.
\<close>

definition hash_used :: "env \<Rightarrow> world \<Rightarrow> organizer \<Rightarrow> path \<Rightarrow> string" where
  "hash_used E w s f =
     (case hash_cache s f of None \<Rightarrow> get_file_hash E (fs w) f | Some h \<Rightarrow> h)"

lemma is_exact_duplicate_sizes_differ:
  "st_size (fs w) f1 = Inr z1 \<Longrightarrow> st_size (fs w) f2 = Inr z2 \<Longrightarrow> z1 \<noteq> z2 \<Longrightarrow>
   is_exact_duplicate E f1 f2 s w = (False, s)"
  by (simp add: is_exact_duplicate_def)

lemma is_exact_duplicate_sizes_equal:
  "st_size (fs w) f1 = Inr z \<Longrightarrow> st_size (fs w) f2 = Inr z \<Longrightarrow>
   is_exact_duplicate E f1 f2 s w =
     (hash_used E w s f1 \<noteq> [] \<and> hash_used E w s f1 = hash_used E w s f2,
      s\<lparr>hash_cache := (hash_cache s)(f1 \<mapsto> hash_used E w s f1, f2 \<mapsto> hash_used E w s f2)\<rparr>)"
  by (auto simp: is_exact_duplicate_def hash_used_def Let_def map_upd_triv fun_upd_twist
           split: option.splits)

lemma is_exact_duplicate_stat_fails:
  "st_size (fs w) f1 = Inl e \<or> st_size (fs w) f2 = Inl e \<Longrightarrow>
   is_exact_duplicate E f1 f2 s w = (False, s)"
  by (auto simp: is_exact_duplicate_def split: sum.splits)

text \<open>
  Claim C6. \<open>is_exact_duplicate\<close> compares the sizes first: when they differ it answers
  False and leaves the organizer as it was, hash cache included, so no hash was computed
  (every computed hash is stored in the cache). When the sizes are equal the answer is
  never taken from the sizes: it is True exactly when the two hashes are equal and not
  empty, and both hashes are in the cache afterwards.
\<close>

theorem is_exact_duplicate_size_then_hash:
  "(\<forall>z1 z2. st_size (fs w) f1 = Inr z1 \<and> st_size (fs w) f2 = Inr z2 \<and> z1 \<noteq> z2
      \<longrightarrow> is_exact_duplicate E f1 f2 s w = (False, s))
   \<and> (\<forall>z. st_size (fs w) f1 = Inr z \<and> st_size (fs w) f2 = Inr z
      \<longrightarrow> is_exact_duplicate E f1 f2 s w =
            (hash_used E w s f1 \<noteq> [] \<and> hash_used E w s f1 = hash_used E w s f2,
             s\<lparr>hash_cache := (hash_cache s)(f1 \<mapsto> hash_used E w s f1,
                                               f2 \<mapsto> hash_used E w s f2)\<rparr>))"
  using is_exact_duplicate_sizes_differ is_exact_duplicate_sizes_equal by blast

theorem is_exact_duplicate_size_then_hash_witness:
  "st_size (fs world_pair) (downloads @ [''a.txt'']) = Inr 5
   \<and> st_size (fs world_pair) (downloads @ [''Documents'', ''b.txt'']) = Inr 7
   \<and> is_exact_duplicate example_env (downloads @ [''a.txt'']) (downloads @ [''Documents'', ''b.txt''])
        (FileOrganizer_init downloads False) world_pair = (False, FileOrganizer_init downloads False)
   \<and> st_size (fs world_pair) (downloads @ [''Documents'', ''a.txt'']) = Inr 5
   \<and> fst (is_exact_duplicate example_env (downloads @ [''a.txt''])
        (downloads @ [''Documents'', ''a.txt'']) (FileOrganizer_init downloads False) world_pair)
       = False
   \<and> hash_cache (snd (is_exact_duplicate example_env (downloads @ [''a.txt''])
        (downloads @ [''Documents'', ''a.txt'']) (FileOrganizer_init downloads False) world_pair))
        (downloads @ [''Documents'', ''a.txt'']) = Some ''md5:BBBBB''"
  using is_exact_duplicate_size_then_hash [of world_pair "downloads @ [''a.txt'']"
          "downloads @ [''Documents'', ''b.txt'']" example_env "FileOrganizer_init downloads False"]
        is_exact_duplicate_size_then_hash [of world_pair "downloads @ [''a.txt'']"
          "downloads @ [''Documents'', ''a.txt'']" example_env "FileOrganizer_init downloads False"]
  by (simp add: world_pair_def example_env_def fs_defs hash_used_def FileOrganizer_init_def)

text \<open>
  The file system of \<open>world_pair\<close> at an earlier moment, when the two files named
  \<open>x.txt\<close> could still be read.
\<close>

definition world_pair_before :: world where
  "world_pair_before =
     \<lparr>fs = [([], Dir 4096), ([''home''], Dir 4096), ([''home'', ''u''], Dir 4096),
             (downloads, Dir 4096),
             (downloads @ [''a.txt''], regular ''AAAAA'' 10),
             (downloads @ [''Documents''], Dir 4096),
             (downloads @ [''Documents'', ''a.txt''], regular ''BBBBB'' 5),
             (downloads @ [''Documents'', ''b.txt''], regular ''BBBBBBB'' 6),
             (downloads @ [''x.txt''], regular ''CCC'' 1),
             (downloads @ [''Documents'', ''x.txt''], regular ''CCC'' 2)],
      tick = 0\<rparr>"

lemma cached_before:
  "is_exact_duplicate example_env (downloads @ [''x.txt'']) (downloads @ [''Documents'', ''x.txt''])
     (FileOrganizer_init downloads False) world_pair_before
   = (True, (FileOrganizer_init downloads False)
        \<lparr>hash_cache := [downloads @ [''x.txt''] \<mapsto> ''md5:CCC'',
                        downloads @ [''Documents'', ''x.txt''] \<mapsto> ''md5:CCC'']\<rparr>)"
  by (simp add: is_exact_duplicate_def world_pair_before_def example_env_def fs_defs
        FileOrganizer_init_def Let_def)

text \<open>
  Claim C5, as the spec states it, fails: \<open>is_exact_duplicate\<close> takes a hash from the
  cache when the path has an entry there and does not open the file. The test below is
  run twice on the same two paths. The first time both files can be read and their
  hashes go into the cache; then both become unreadable, so that \<open>get_file_hash\<close>
  returns the empty string for each; the second test still answers True.
\<close>

theorem unreadable_files_duplicate_counterexample:
  "get_file_hash example_env (fs world_pair) (downloads @ [''x.txt'']) = []
   \<and> get_file_hash example_env (fs world_pair) (downloads @ [''Documents'', ''x.txt'']) = []
   \<and> fst (is_exact_duplicate example_env (downloads @ [''x.txt''])
            (downloads @ [''Documents'', ''x.txt''])
            (snd (is_exact_duplicate example_env (downloads @ [''x.txt''])
                    (downloads @ [''Documents'', ''x.txt''])
                    (FileOrganizer_init downloads False) world_pair_before))
            world_pair)"
  unfolding cached_before
  by (simp add: is_exact_duplicate_def world_pair_def example_env_def fs_defs Let_def)

text \<open>
  Claim C5, amended. The hash the test works with for a path is \<open>hash_used\<close>: the cache
  entry when there is one, a fresh \<open>get_file_hash\<close> otherwise. Whenever that hash is
  empty for either file the answer is False, whatever the cache holds; so a file without
  a cache entry whose hashing fails is never declared a duplicate, and an answer True
  means that both hashes are non-empty and equal.
\<close>

theorem empty_hash_never_duplicate:
  "(hash_used E w s f1 = [] \<or> hash_used E w s f2 = []
      \<longrightarrow> \<not> fst (is_exact_duplicate E f1 f2 s w))
   \<and> (hash_cache s f1 = None \<and> get_file_hash E (fs w) f1 = []
      \<longrightarrow> \<not> fst (is_exact_duplicate E f1 f2 s w))
   \<and> (hash_cache s f2 = None \<and> get_file_hash E (fs w) f2 = []
      \<longrightarrow> \<not> fst (is_exact_duplicate E f1 f2 s w))
   \<and> (fst (is_exact_duplicate E f1 f2 s w)
      \<longrightarrow> hash_used E w s f1 \<noteq> [] \<and> hash_used E w s f1 = hash_used E w s f2)"
proof -
  have k: "\<not> fst (is_exact_duplicate E f1 f2 s w)"
    if "hash_used E w s f1 = [] \<or> hash_used E w s f2 = [] \<or> hash_used E w s f1 \<noteq> hash_used E w s f2"
  proof (cases "\<exists>z. st_size (fs w) f1 = Inr z \<and> st_size (fs w) f2 = Inr z")
    case True
    then obtain z where z: "st_size (fs w) f1 = Inr z" "st_size (fs w) f2 = Inr z" by blast
    from that show ?thesis
      by (auto simp: is_exact_duplicate_sizes_equal [OF z])
  next
    case False
    then show ?thesis
      by (auto simp: is_exact_duplicate_def split: sum.splits)
  qed
  have "hash_cache s f = None \<and> get_file_hash E (fs w) f = [] \<Longrightarrow> hash_used E w s f = []" for f
    by (simp add: hash_used_def)
  with k show ?thesis by blast
qed

theorem empty_hash_never_duplicate_witness:
  "hash_cache (FileOrganizer_init downloads False) (downloads @ [''x.txt'']) = None
   \<and> hash_cache (FileOrganizer_init downloads False) (downloads @ [''Documents'', ''x.txt'']) = None
   \<and> get_file_hash example_env (fs world_pair) (downloads @ [''x.txt'']) = []
   \<and> get_file_hash example_env (fs world_pair) (downloads @ [''Documents'', ''x.txt'']) = []
   \<and> hash_used example_env world_pair (FileOrganizer_init downloads False) (downloads @ [''x.txt'']) = []
   \<and> st_size (fs world_pair) (downloads @ [''x.txt''])
       = st_size (fs world_pair) (downloads @ [''Documents'', ''x.txt''])
   \<and> \<not> fst (is_exact_duplicate example_env (downloads @ [''x.txt''])
              (downloads @ [''Documents'', ''x.txt'']) (FileOrganizer_init downloads False) world_pair)
   \<and> fst (is_exact_duplicate example_env (downloads @ [''x.txt''])
            (downloads @ [''Documents'', ''x.txt'']) (FileOrganizer_init downloads False)
            world_pair_before)
   \<and> hash_used example_env world_pair_before (FileOrganizer_init downloads False)
        (downloads @ [''x.txt'']) = ''md5:CCC''
   \<and> hash_used example_env world_pair_before (FileOrganizer_init downloads False)
        (downloads @ [''Documents'', ''x.txt'']) = ''md5:CCC''"
proof -
  have "fst (is_exact_duplicate example_env (downloads @ [''x.txt''])
            (downloads @ [''Documents'', ''x.txt'']) (FileOrganizer_init downloads False)
            world_pair_before)"
    by (simp add: cached_before)
  with empty_hash_never_duplicate [of example_env world_pair "FileOrganizer_init downloads False"
          "downloads @ [''x.txt'']" "downloads @ [''Documents'', ''x.txt'']"]
        empty_hash_never_duplicate [of example_env world_pair_before
          "FileOrganizer_init downloads False"
          "downloads @ [''x.txt'']" "downloads @ [''Documents'', ''x.txt'']"]
  show ?thesis
    by (simp add: world_pair_def world_pair_before_def example_env_def fs_defs
          hash_used_def FileOrganizer_init_def)
qed

section \<open>The loop of \<open>get_unique_filename\<close>\<close>

text \<open>
  The loop's defining equation is taken out of the simplifier's rules and used one step
  at a time, through the four lemmas below: one for each way through the loop body.
\<close>

declare unique_loop.simps [simp del]

lemma unique_loop_absent:
  "\<not> exists (fs w) np \<Longrightarrow> unique_loop E fp tf b e counter np n s w = (Some np, n, s, w)"
  by (subst unique_loop.simps) simp

lemma unique_loop_duplicate:
  "exists (fs w) np \<Longrightarrow> is_exact_duplicate E fp np s w = (True, s1) \<Longrightarrow>
   unique_loop E fp tf b e counter np n s w =
     (None, Suc n, fst (remove_found_duplicate fp s1 w), snd (remove_found_duplicate fp s1 w))"
  by (subst unique_loop.simps) (simp add: split_beta)

lemma unique_loop_fallback:
  "exists (fs w) np \<Longrightarrow> is_exact_duplicate E fp np s w = (False, s1) \<Longrightarrow> 100 \<le> counter \<Longrightarrow>
   unique_loop E fp tf b e counter np n s w =
     (Some (tf @ [b @ ''_'' @ strftime_now E (tick w) @ e]), Suc n, s1, w\<lparr>tick := tick w + 1\<rparr>)"
  by (subst unique_loop.simps) simp

lemma unique_loop_next:
  "exists (fs w) np \<Longrightarrow> is_exact_duplicate E fp np s w = (False, s1) \<Longrightarrow> counter < 100 \<Longrightarrow>
   unique_loop E fp tf b e counter np n s w =
     unique_loop E fp tf b e (counter + 1) (tf @ [b @ ''_'' @ str_nat counter @ e]) (Suc n) s1 w"
  by (subst unique_loop.simps) simp

lemma unique_loop_cases [case_names absent duplicate fallback again]:
  assumes "\<not> exists (fs w) np \<Longrightarrow> P"
    and "\<And>s1. exists (fs w) np \<Longrightarrow> is_exact_duplicate E fp np s w = (True, s1) \<Longrightarrow> P"
    and "\<And>s1. exists (fs w) np \<Longrightarrow> is_exact_duplicate E fp np s w = (False, s1) \<Longrightarrow> 100 \<le> (counter::nat) \<Longrightarrow> P"
    and "\<And>s1. exists (fs w) np \<Longrightarrow> is_exact_duplicate E fp np s w = (False, s1) \<Longrightarrow> counter < 100 \<Longrightarrow> P"
  shows P
proof (cases "exists (fs w) np")
  case False
  then show ?thesis by (rule assms(1))
next
  case True
  obtain dup s1 where d: "is_exact_duplicate E fp np s w = (dup, s1)"
    by (cases "is_exact_duplicate E fp np s w")
  show ?thesis
  proof (cases dup)
    case True
    with d \<open>exists (fs w) np\<close> show ?thesis by (auto intro: assms(2))
  next
    case False
    with d \<open>exists (fs w) np\<close> show ?thesis
      by (cases "counter < 100") (auto intro: assms(3) assms(4))
  qed
qed

lemma unique_loop_bound:
  "unique_loop E fp tf b e counter np n s w = (r, n', s', w') \<Longrightarrow>
   n' \<le> n + (101 - counter) \<or> n' \<le> n + 1"
proof (induction E fp tf b e counter np n s w rule: unique_loop.induct)
  case (1 E fp tf b e counter np n s w)
  show ?case
  proof (cases rule: unique_loop_cases [where w = w and np = np and E = E and fp = fp and s = s
                                              and counter = counter])
    case absent
    with "1.prems" show ?thesis by (simp add: unique_loop_absent)
  next
    case (duplicate s1)
    with "1.prems" show ?thesis by (simp add: unique_loop_duplicate)
  next
    case (fallback s1)
    with "1.prems" show ?thesis by (simp add: unique_loop_fallback)
  next
    case (again s1)
    from again "1.prems" have
      "unique_loop E fp tf b e (counter + 1) (tf @ [b @ ''_'' @ str_nat counter @ e]) (Suc n) s1 w
        = (r, n', s', w')"
      by (simp add: unique_loop_next)
    from "1.IH" [OF again(1) again(2) [symmetric] refl _ _ this] again(3)
    show ?thesis by auto
  qed
qed


definition step_ok :: "organizer \<Rightarrow> organizer \<Rightarrow> bool" where
  "step_ok s s' =
     (source_folder s' = source_folder s \<and> dry_run s' = dry_run s \<and> categories s' = categories s
      \<and> hash_cache s \<subseteq>\<^sub>m hash_cache s' \<and> processed (stat s') = processed (stat s))"

definition dry_ok :: "organizer \<Rightarrow> organizer \<Rightarrow> bool" where
  "dry_ok s s' =
     (moved (stat s') = moved (stat s) \<and> renamed (stat s') = renamed (stat s)
      \<and> duplicates_removed (stat s') = duplicates_removed (stat s)
      \<and> errors (stat s') = errors (stat s))"

lemma step_ok_refl [simp]: "step_ok s s"
  by (simp add: step_ok_def)

lemma step_ok_trans: "step_ok s s1 \<Longrightarrow> step_ok s1 s2 \<Longrightarrow> step_ok s s2"
  by (auto simp: step_ok_def intro: map_le_trans)

lemma dry_ok_refl [simp]: "dry_ok s s"
  by (simp add: dry_ok_def)

lemma dry_ok_trans: "dry_ok s s1 \<Longrightarrow> dry_ok s1 s2 \<Longrightarrow> dry_ok s s2"
  by (simp add: dry_ok_def)

lemma is_exact_duplicate_cache:
  "\<exists>c. snd (is_exact_duplicate E f1 f2 s w) = s\<lparr>hash_cache := c\<rparr> \<and> hash_cache s \<subseteq>\<^sub>m c"
proof (cases "\<exists>z. st_size (fs w) f1 = Inr z \<and> st_size (fs w) f2 = Inr z")
  case True
  then obtain z where z: "st_size (fs w) f1 = Inr z" "st_size (fs w) f2 = Inr z" by blast
  have "hash_cache s \<subseteq>\<^sub>m (hash_cache s)(f1 \<mapsto> hash_used E w s f1, f2 \<mapsto> hash_used E w s f2)"
    by (auto simp: map_le_def hash_used_def)
  then show ?thesis
    by (subst is_exact_duplicate_sizes_equal [OF z]) auto
next
  case False
  then have "is_exact_duplicate E f1 f2 s w = (False, s)"
    by (auto simp: is_exact_duplicate_def split: sum.splits)
  then show ?thesis
    by (auto intro: exI [of _ "hash_cache s"])
qed

lemma is_exact_duplicate_step:
  "is_exact_duplicate E f1 f2 s w = (r, s1) \<Longrightarrow> step_ok s s1 \<and> dry_ok s s1 \<and> stat s1 = stat s"
  using is_exact_duplicate_cache [of E f1 f2 s w] by (auto simp: step_ok_def dry_ok_def)

lemma remove_found_duplicate_step:
  "step_ok s (fst (remove_found_duplicate fp s w))"
  by (auto simp: remove_found_duplicate_def step_ok_def Let_def inc_duplicates_found_def
        add_duplicates_removed_def inc_errors_def split: sum.splits)

lemma remove_found_duplicate_dry:
  "dry_run s \<Longrightarrow> dry_ok s (fst (remove_found_duplicate fp s w))
     \<and> snd (remove_found_duplicate fp s w) = w"
  by (auto simp: remove_found_duplicate_def dry_ok_def Let_def inc_duplicates_found_def)

lemma unique_loop_step:
  "unique_loop E fp tf b e counter np n s w = (r, n', s', w') \<Longrightarrow> step_ok s s'"
proof (induction E fp tf b e counter np n s w rule: unique_loop.induct)
  case (1 E fp tf b e counter np n s w)
  show ?case
  proof (cases rule: unique_loop_cases [where w = w and np = np and E = E and fp = fp and s = s
                                              and counter = counter])
    case absent
    with "1.prems" show ?thesis by (simp add: unique_loop_absent)
  next
    case (duplicate s1)
    with "1.prems" have "s' = fst (remove_found_duplicate fp s1 w)"
      by (simp add: unique_loop_duplicate)
    with is_exact_duplicate_step [OF duplicate(2)] remove_found_duplicate_step [of s1 fp w]
    show ?thesis by (auto intro: step_ok_trans)
  next
    case (fallback s1)
    with "1.prems" is_exact_duplicate_step [OF fallback(2)] show ?thesis
      by (simp add: unique_loop_fallback)
  next
    case (again s1)
    from again "1.prems" have
      "unique_loop E fp tf b e (counter + 1) (tf @ [b @ ''_'' @ str_nat counter @ e]) (Suc n) s1 w
        = (r, n', s', w')"
      by (simp add: unique_loop_next)
    from "1.IH" [OF again(1) again(2) [symmetric] refl _ _ this] again(3)
      is_exact_duplicate_step [OF again(2)]
    show ?thesis by (auto intro: step_ok_trans)
  qed
qed

lemma unique_loop_dry:
  "unique_loop E fp tf b e counter np n s w = (r, n', s', w') \<Longrightarrow> dry_run s \<Longrightarrow>
   dry_ok s s' \<and> fs w' = fs w"
proof (induction E fp tf b e counter np n s w rule: unique_loop.induct)
  case (1 E fp tf b e counter np n s w)
  show ?case
  proof (cases rule: unique_loop_cases [where w = w and np = np and E = E and fp = fp and s = s
                                              and counter = counter])
    case absent
    with "1.prems" show ?thesis by (simp add: unique_loop_absent)
  next
    case (duplicate s1)
    from is_exact_duplicate_step [OF duplicate(2)] "1.prems"(2)
    have d: "dry_run s1" "dry_ok s s1" by (auto simp: step_ok_def)
    from duplicate "1.prems" have "s' = fst (remove_found_duplicate fp s1 w)"
      "w' = snd (remove_found_duplicate fp s1 w)"
      by (simp_all add: unique_loop_duplicate)
    with d remove_found_duplicate_dry [OF d(1), of fp w]
    show ?thesis by (auto intro: dry_ok_trans)
  next
    case (fallback s1)
    with "1.prems" is_exact_duplicate_step [OF fallback(2)] show ?thesis
      by (auto simp: unique_loop_fallback)
  next
    case (again s1)
    from is_exact_duplicate_step [OF again(2)] "1.prems"(2)
    have d: "dry_run s1" "dry_ok s s1" by (auto simp: step_ok_def)
    from again "1.prems" have
      "unique_loop E fp tf b e (counter + 1) (tf @ [b @ ''_'' @ str_nat counter @ e]) (Suc n) s1 w
        = (r, n', s', w')"
      by (simp add: unique_loop_next)
    from "1.IH" [OF again(1) again(2) [symmetric] refl _ _ this d(1)] again(3) d(2)
    show ?thesis by (auto intro: dry_ok_trans)
  qed
qed

lemma unique_loop_free:
  "unique_loop E fp tf b e counter np n s w = (Some p, n', s', w') \<Longrightarrow>
   n' + counter < n + 101 \<Longrightarrow> \<not> exists (fs w') p \<and> w' = w"
proof (induction E fp tf b e counter np n s w rule: unique_loop.induct)
  case (1 E fp tf b e counter np n s w)
  show ?case
  proof (cases rule: unique_loop_cases [where w = w and np = np and E = E and fp = fp and s = s
                                              and counter = counter])
    case absent
    with "1.prems" show ?thesis by (simp add: unique_loop_absent)
  next
    case (duplicate s1)
    with "1.prems" show ?thesis by (simp add: unique_loop_duplicate)
  next
    case (fallback s1)
    with "1.prems" show ?thesis by (simp add: unique_loop_fallback)
  next
    case (again s1)
    from again "1.prems" have
      "unique_loop E fp tf b e (counter + 1) (tf @ [b @ ''_'' @ str_nat counter @ e]) (Suc n) s1 w
        = (Some p, n', s', w')"
      by (simp add: unique_loop_next)
    from "1.IH" [OF again(1) again(2) [symmetric] refl _ _ this] again(3) "1.prems"(2)
    show ?thesis by auto
  qed
qed

lemma unique_loop_forced:
  "unique_loop E fp tf b e counter np n s w = (Some p, n', s', w') \<Longrightarrow>
   n + 101 \<le> n' + counter \<Longrightarrow> counter \<le> 100 \<Longrightarrow>
   p = tf @ [b @ ''_'' @ strftime_now E (tick w) @ e] \<and> fs w' = fs w"
proof (induction E fp tf b e counter np n s w rule: unique_loop.induct)
  case (1 E fp tf b e counter np n s w)
  show ?case
  proof (cases rule: unique_loop_cases [where w = w and np = np and E = E and fp = fp and s = s
                                              and counter = counter])
    case absent
    with "1.prems" show ?thesis by (simp add: unique_loop_absent)
  next
    case (duplicate s1)
    with "1.prems" show ?thesis by (simp add: unique_loop_duplicate)
  next
    case (fallback s1)
    with "1.prems" show ?thesis by (auto simp: unique_loop_fallback)
  next
    case (again s1)
    from again "1.prems" have
      "unique_loop E fp tf b e (counter + 1) (tf @ [b @ ''_'' @ str_nat counter @ e]) (Suc n) s1 w
        = (Some p, n', s', w')"
      by (simp add: unique_loop_next)
    from "1.IH" [OF again(1) again(2) [symmetric] refl _ _ this] again(3) "1.prems"(2)
    show ?thesis by auto
  qed
qed


definition size_differs :: "world \<Rightarrow> path \<Rightarrow> path \<Rightarrow> bool" where
  "size_differs w f1 f2 =
     (case (st_size (fs w) f1, st_size (fs w) f2) of
        (Inr z1, Inr z2) \<Rightarrow> z1 \<noteq> z2
      | _ \<Rightarrow> False)"

lemma size_differs_not_duplicate:
  "size_differs w f1 f2 \<Longrightarrow> is_exact_duplicate E f1 f2 s w = (False, s)"
  by (auto simp: size_differs_def is_exact_duplicate_def split: sum.splits)

lemma size_differs_exists: "size_differs w f1 f2 \<Longrightarrow> exists (fs w) f2"
  by (auto simp: size_differs_def st_size_def exists_def split: sum.splits option.splits)

lemma unique_loop_storm:
  "counter \<le> 100 \<Longrightarrow> size_differs w fp np \<Longrightarrow>
   (\<forall>k. counter \<le> k \<and> k < 100 \<longrightarrow> size_differs w fp (tf @ [b @ ''_'' @ str_nat k @ e])) \<Longrightarrow>
   unique_loop E fp tf b e counter np n s w =
     (Some (tf @ [b @ ''_'' @ strftime_now E (tick w) @ e]), n + (101 - counter), s,
      w\<lparr>tick := tick w + 1\<rparr>)"
proof (induction "100 - counter" arbitrary: counter np n)
  case 0
  then have "counter = 100" by simp
  with 0 show ?case
    by (simp add: unique_loop_fallback [OF size_differs_exists size_differs_not_duplicate])
next
  case (Suc d)
  then have c: "counter < 100" by simp
  from Suc.prems c have nxt: "size_differs w fp (tf @ [b @ ''_'' @ str_nat counter @ e])"
    by simp
  have "unique_loop E fp tf b e counter np n s w =
        unique_loop E fp tf b e (counter + 1) (tf @ [b @ ''_'' @ str_nat counter @ e]) (Suc n) s w"
    using Suc.prems(2) c
    by (simp add: unique_loop_next [OF size_differs_exists size_differs_not_duplicate])
  also have "\<dots> = (Some (tf @ [b @ ''_'' @ strftime_now E (tick w) @ e]),
                    Suc n + (101 - (counter + 1)), s, w\<lparr>tick := tick w + 1\<rparr>)"
    using Suc.hyps(2) c Suc.prems(3) nxt
    by (intro Suc.hyps(1)) auto
  finally show ?case using c by simp
qed

subsection \<open>A folder in which every candidate name is taken\<close>

definition storm_world :: world where
  "storm_world =
     \<lparr>fs = [([], Dir 4096), ([''home''], Dir 4096), ([''home'', ''u''], Dir 4096),
             (downloads, Dir 4096),
             (downloads @ [''a.txt''], regular ''AAAAA'' 10),
             (downloads @ [''Documents''], Dir 4096),
             (downloads @ [''Documents'', ''a.txt''], regular ''an older text'' 5)]
            @ map (\<lambda>k. (downloads @ [''Documents'', ''a_'' @ str_nat k @ ''.txt''], regular ''x'' 1))
                [1..<100]
            @ [(downloads @ [''Documents'', ''a_20240101_120000_0.txt''], regular ''precious'' 2)],
      tick = 0\<rparr>"

lemma map_of_const_map:
  "k \<in> set ks \<Longrightarrow> map_of (map (\<lambda>k. (g k, v)) ks) (g k) = Some v"
  by (induction ks) auto

lemma map_of_append_None: "map_of xs k = None \<Longrightarrow> map_of (xs @ ys) k = map_of ys k"
  by (simp add: map_add_def)

lemma map_of_append_Some: "map_of xs k = Some v \<Longrightarrow> map_of (xs @ ys) k = Some v"
  by (simp add: map_add_def)

lemma storm_source:
  "lookup (fs storm_world) (downloads @ [''a.txt'']) = Some (regular ''AAAAA'' 10)"
  by (simp add: storm_world_def lookup_def downloads_def map_of_append_Some)

lemma storm_numbered_lookup:
  assumes "1 \<le> k" "k < 100"
  shows "lookup (fs storm_world) (downloads @ [''Documents'', ''a_'' @ str_nat k @ ''.txt''])
           = Some (regular ''x'' 1)"
proof -
  have "map_of (map (\<lambda>k. (downloads @ [''Documents'', ''a_'' @ str_nat k @ ''.txt''], regular ''x'' 1))
          [1..<100]) (downloads @ [''Documents'', ''a_'' @ str_nat k @ ''.txt'']) = Some (regular ''x'' 1)"
    using assms by (intro map_of_const_map) simp
  then have "map_of (map (\<lambda>k. (downloads @ [''Documents'', ''a_'' @ str_nat k @ ''.txt''], regular ''x'' 1))
          [1..<100] @ [(downloads @ [''Documents'', ''a_20240101_120000_0.txt''], regular ''precious'' 2)])
           (downloads @ [''Documents'', ''a_'' @ str_nat k @ ''.txt'']) = Some (regular ''x'' 1)"
    by (rule map_of_append_Some)
  moreover have "map_of [([], Dir 4096), ([''home''], Dir 4096), ([''home'', ''u''], Dir 4096),
             (downloads, Dir 4096),
             (downloads @ [''a.txt''], regular ''AAAAA'' 10),
             (downloads @ [''Documents''], Dir 4096),
             (downloads @ [''Documents'', ''a.txt''], regular ''an older text'' 5)]
           (downloads @ [''Documents'', ''a_'' @ str_nat k @ ''.txt'']) = None"
    by (simp add: downloads_def)
  ultimately show ?thesis
    unfolding storm_world_def lookup_def by (simp only: world.simps map_of_append_None)
qed

lemma storm_numbered:
  assumes "1 \<le> k" "k < 100"
  shows "size_differs storm_world (downloads @ [''a.txt''])
           (downloads @ [''Documents'', ''a_'' @ str_nat k @ ''.txt''])"
  using storm_source storm_numbered_lookup [OF assms]
  by (simp add: size_differs_def st_size_def regular_def)

lemma storm_first:
  "size_differs storm_world (downloads @ [''a.txt'']) (downloads @ [''Documents'', ''a.txt''])"
  by (simp add: size_differs_def st_size_def storm_world_def lookup_def downloads_def regular_def)

lemma storm_result:
  "get_unique_filename_iters example_env (downloads @ [''a.txt'']) (downloads @ [''Documents''])
     (FileOrganizer_init downloads False) storm_world
   = (Some (downloads @ [''Documents'', ''a_20240101_120000_0.txt'']), 100,
      FileOrganizer_init downloads False, storm_world\<lparr>tick := 1\<rparr>)"
proof -
  have "unique_loop example_env (downloads @ [''a.txt'']) (downloads @ [''Documents'']) ''a'' ''.txt''
          1 ((downloads @ [''Documents'']) @ [''a.txt'']) 0 (FileOrganizer_init downloads False) storm_world
        = (Some ((downloads @ [''Documents'']) @ [''a'' @ ''_'' @ strftime_now example_env (tick storm_world) @ ''.txt'']),
           0 + (101 - 1), FileOrganizer_init downloads False, storm_world\<lparr>tick := tick storm_world + 1\<rparr>)"
    using storm_first storm_numbered by (intro unique_loop_storm) auto
  moreover have "tick storm_world = 0" by (simp add: storm_world_def)
  ultimately show ?thesis
    by (simp add: get_unique_filename_iters_def name_def rsplit_dot_def example_env_def digit_def str_nat.simps)
qed

lemma storm_occupied:
  "exists (fs storm_world) (downloads @ [''Documents'', ''a_20240101_120000_0.txt''])"
proof -
  have "downloads @ [''Documents'', ''a_20240101_120000_0.txt''] \<in> fst ` set (fs storm_world)"
    by (simp add: storm_world_def)
  then show ?thesis
    by (simp add: exists_def lookup_def map_of_eq_None_iff)
qed

section \<open>What one file's processing keeps\<close>

text \<open>
  \<open>step_ok\<close> holds between the organizer before and after any step of the per-file
  pass: the configuration is the same, the hash cache has only grown, and \<open>processed\<close>
  is untouched. \<open>dry_ok\<close> is what a dry run adds: the four counters behind
  \<open>if not self.dry_run\<close> stay as they were.
\<close>

lemma get_unique_filename_step:
  "get_unique_filename E fp tf s w = (r, s', w') \<Longrightarrow> step_ok s s'"
  by (auto simp: get_unique_filename_def get_unique_filename_iters_def Let_def
           split: prod.splits dest: unique_loop_step)

lemma get_unique_filename_dry:
  "get_unique_filename E fp tf s w = (r, s', w') \<Longrightarrow> dry_run s \<Longrightarrow> dry_ok s s' \<and> fs w' = fs w"
  by (auto simp: get_unique_filename_def get_unique_filename_iters_def Let_def
           split: prod.splits dest: unique_loop_dry)

lemma step_ok_inc [simp]:
  "step_ok s (inc_errors s)" "step_ok s (inc_moved s)" "step_ok s (inc_renamed s)"
  "step_ok s (inc_skipped s)" "step_ok s (inc_duplicates_found s)"
  "step_ok s (add_duplicates_removed k s)"
  by (simp_all add: step_ok_def inc_errors_def inc_moved_def inc_renamed_def inc_skipped_def
        inc_duplicates_found_def add_duplicates_removed_def)

lemma place_in_category_step:
  "place_in_category E fp c s w = (r, s', w') \<Longrightarrow> step_ok s s'"
  by (auto simp: place_in_category_def Let_def
           split: prod.splits option.splits sum.splits if_splits
           dest!: get_unique_filename_step intro: step_ok_trans [OF _ step_ok_inc(1)]
             step_ok_trans [OF _ step_ok_inc(2)]
             step_ok_trans [OF step_ok_trans [OF _ step_ok_inc(2)] step_ok_inc(3)])

lemma place_in_category_dry:
  "place_in_category E fp c s w = (r, s', w') \<Longrightarrow> dry_run s \<Longrightarrow> dry_ok s s' \<and> fs w' = fs w"
proof -
  assume a: "place_in_category E fp c s w = (r, s', w')" and d: "dry_run s"
  obtain u s1 w1 where g: "get_unique_filename E fp (source_folder s @ [c]) s w = (u, s1, w1)"
    by (cases "get_unique_filename E fp (source_folder s @ [c]) s w")
  from get_unique_filename_step [OF g] d have d1: "dry_run s1" by (simp add: step_ok_def)
  from get_unique_filename_dry [OF g d] have "dry_ok s s1" "fs w1 = fs w" by auto
  with a g d1 show ?thesis
    by (auto simp: place_in_category_def Let_def split: option.splits sum.splits)
qed

lemma process_categories_step:
  "process_categories E fp ext cats s w = (r, s', w') \<Longrightarrow> step_ok s s'"
  by (induction cats) (auto split: if_splits dest: place_in_category_step)

lemma process_categories_dry:
  "process_categories E fp ext cats s w = (r, s', w') \<Longrightarrow> dry_run s \<Longrightarrow>
   dry_ok s s' \<and> fs w' = fs w"
proof (induction cats)
  case Nil
  then show ?case by (auto simp: dry_ok_def inc_skipped_def)
next
  case (Cons c cats)
  then show ?case
    by (cases c) (auto split: if_splits dest: place_in_category_dry)
qed

lemma process_file_step: "process_file E fp s w = (r, s', w') \<Longrightarrow> step_ok s s'"
  by (auto simp: process_file_def dest: process_categories_step)

lemma process_file_dry:
  "process_file E fp s w = (r, s', w') \<Longrightarrow> dry_run s \<Longrightarrow> dry_ok s s' \<and> fs w' = fs w"
  by (simp add: process_file_def process_categories_dry)

lemma process_all_step: "process_all E files s w = (r, s', w') \<Longrightarrow> step_ok s s'"
proof (induction files arbitrary: s w)
  case Nil
  then show ?case by simp
next
  case (Cons f files)
  obtain r1 s1 w1 where p: "process_file E f s w = (r1, s1, w1)"
    by (cases "process_file E f s w")
  show ?case
  proof (cases r1)
    case (Inl e)
    with p Cons.prems process_file_step [OF p] show ?thesis by simp
  next
    case (Inr u)
    with p Cons.prems have "process_all E files s1 w1 = (r, s', w')" by simp
    from Cons.IH [OF this] process_file_step [OF p] show ?thesis by (rule step_ok_trans [rotated])
  qed
qed

lemma process_all_dry:
  "process_all E files s w = (r, s', w') \<Longrightarrow> dry_run s \<Longrightarrow> dry_ok s s' \<and> fs w' = fs w"
proof (induction files arbitrary: s w)
  case Nil
  then show ?case by simp
next
  case (Cons f files)
  obtain r1 s1 w1 where p: "process_file E f s w = (r1, s1, w1)"
    by (cases "process_file E f s w")
  from process_file_step [OF p] Cons.prems(2) have d1: "dry_run s1" by (simp add: step_ok_def)
  from process_file_dry [OF p Cons.prems(2)] have k: "dry_ok s s1" "fs w1 = fs w" by auto
  show ?case
  proof (cases r1)
    case (Inl e)
    with p Cons.prems k show ?thesis by simp
  next
    case (Inr u)
    with p Cons.prems have "process_all E files s1 w1 = (r, s', w')" by simp
    from Cons.IH [OF this d1] k show ?thesis by (auto intro: dry_ok_trans)
  qed
qed

lemma create_category_folders_loop_dry:
  "dry_run s \<Longrightarrow> create_category_folders_loop E cs s w = (Inr (), w)"
  by (induction cs) (auto simp: Let_def)

section \<open>Creating the category folders\<close>

text \<open>
  In a real run on a source folder that is a writable directory,
  \<open>create_category_folders\<close> appends directories at paths that were free, and nothing
  else; \<open>fresh_dirs\<close> says so.
  The files the snapshot selects are then the same before and after.
\<close>

lemma is_file_append_dirs:
  "\<forall>(p, n) \<in> set new. \<exists>z. n = Dir z \<Longrightarrow> is_file (fsys @ new) q = is_file fsys q"
proof -
  assume a: "\<forall>(p, n) \<in> set new. \<exists>z. n = Dir z"
  have "map_of new q = None \<or> (\<exists>z. map_of new q = Some (Dir z))"
  proof (cases "map_of new q")
    case None
    then show ?thesis by simp
  next
    case (Some n)
    then have "(q, n) \<in> set new" by (rule map_of_SomeD)
    with a Some show ?thesis by auto
  qed
  then show ?thesis
    by (auto simp: is_file_def lookup_def map_add_def split: option.splits node.splits)
qed

definition fresh_dirs :: "filesystem \<Rightarrow> filesystem \<Rightarrow> bool" where
  "fresh_dirs fsys new = (\<forall>(p, n) \<in> set new. (\<exists>z. n = Dir z) \<and> \<not> exists fsys p)"

lemma fresh_dirs_Nil [simp]: "fresh_dirs fsys []"
  by (simp add: fresh_dirs_def)

lemma files_to_process_append:
  assumes "fresh_dirs fsys new"
  shows "files_to_process (fsys @ new) (filter P (map fst (fsys @ new)))
         = files_to_process fsys (filter P (map fst fsys))"
proof -
  from assms have d: "\<forall>(p, n) \<in> set new. \<exists>z. n = Dir z" by (auto simp: fresh_dirs_def)
  have "\<not> is_file fsys q" if "q \<in> fst ` set new" for q
  proof -
    from that assms have "\<not> exists fsys q" by (auto simp: fresh_dirs_def)
    then show ?thesis by (simp add: exists_def is_file_def)
  qed
  then have "filter (\<lambda>item. is_file fsys item \<and> \<not> startswith_dot (name item) \<and> suffix item \<noteq> ''.log'')
               (filter P (map fst new)) = []"
    by (auto simp: filter_empty_conv)
  then show ?thesis
    by (simp add: files_to_process_def is_file_append_dirs [OF d])
qed

definition writable_dir :: "filesystem \<Rightarrow> path \<Rightarrow> bool" where
  "writable_dir fsys d = (case lookup fsys d of Some (Dir z) \<Rightarrow> True | _ \<Rightarrow> False)"

lemma is_dir_iff: "is_dir fsys d \<longleftrightarrow> writable_dir fsys d \<or> read_only fsys d"
  by (auto simp: is_dir_def writable_dir_def read_only_def split: option.splits node.splits)

lemma mkdir_parents_in_dir:
  "writable_dir fsys (parent p) \<Longrightarrow> \<not> exists fsys p \<Longrightarrow>
   mkdir_parents z fsys p = Inr (fsys @ [(p, Dir z)])"
proof -
  assume "writable_dir fsys (parent p)" "\<not> exists fsys p"
  then have "os_mkdir z fsys p = Inr (fsys @ [(p, Dir z)])"
    by (auto simp: os_mkdir_def writable_dir_def split: option.splits node.splits)
  then show ?thesis
    by (subst mkdir_parents.simps) simp
qed

lemma mkdir_parents_read_only:
  "read_only fsys (parent p) \<Longrightarrow> \<not> exists fsys p \<Longrightarrow> mkdir_parents z fsys p = Inl PermissionError"
proof -
  assume a: "read_only fsys (parent p)" "\<not> exists fsys p"
  then have "os_mkdir z fsys p = Inl PermissionError"
    by (auto simp: os_mkdir_def read_only_def split: option.splits node.splits)
  moreover from a(2) have "\<not> is_dir fsys p"
    by (auto simp: exists_def is_dir_def)
  ultimately show ?thesis
    by (subst mkdir_parents.simps) simp
qed

lemma writable_dir_append: "writable_dir fsys d \<Longrightarrow> writable_dir (fsys @ new) d"
  by (auto simp: writable_dir_def lookup_def map_add_def split: option.splits node.splits)

lemma is_dir_append: "is_dir fsys d \<Longrightarrow> is_dir (fsys @ new) d"
  by (auto simp: is_dir_def lookup_def map_add_def split: option.splits node.splits)

lemma exists_iff_key: "exists fsys p \<longleftrightarrow> p \<in> fst ` set fsys"
  by (simp add: exists_def lookup_def map_of_eq_None_iff)

lemma exists_append: "exists (fsys @ new) p \<longleftrightarrow> exists fsys p \<or> p \<in> fst ` set new"
  by (auto simp: exists_iff_key)

lemma create_category_folders_loop_real:
  "writable_dir (fs w) (source_folder s) \<Longrightarrow>
   \<exists>new. create_category_folders_loop E cs s w = (Inr (), w\<lparr>fs := fs w @ new\<rparr>)
          \<and> fresh_dirs (fs w) new"
proof (induction cs arbitrary: w)
  case Nil
  show ?case by (auto intro: exI [of _ "[]"])
next
  case (Cons c cs)
  let ?p = "source_folder s @ [c]"
  show ?case
  proof (cases "\<not> exists (fs w) ?p \<and> \<not> dry_run s")
    case False
    with Cons.IH [OF Cons.prems] show ?thesis by (auto simp: Let_def)
  next
    case True
    let ?w1 = "w\<lparr>fs := fs w @ [(?p, Dir (dir_size E))]\<rparr>"
    from True Cons.prems have m: "mkdir_parents (dir_size E) (fs w) ?p = Inr (fs ?w1)"
      by (simp add: mkdir_parents_in_dir parent_def)
    from Cons.prems have "writable_dir (fs ?w1) (source_folder s)"
      by (simp add: writable_dir_append)
    from Cons.IH [OF this] obtain new where
      n: "create_category_folders_loop E cs s ?w1 = (Inr (), ?w1\<lparr>fs := fs ?w1 @ new\<rparr>)"
         "fresh_dirs (fs ?w1) new" by blast
    from n(2) True have "fresh_dirs (fs w) ((?p, Dir (dir_size E)) # new)"
      by (auto simp: fresh_dirs_def exists_append)
    with True m n(1) show ?thesis
      by (intro exI [of _ "(?p, Dir (dir_size E)) # new"]) (simp add: Let_def)
  qed
qed

text \<open>In a read-only source folder the first missing category folder ends the run.\<close>

lemma create_category_folders_loop_read_only:
  "read_only (fs w) (source_folder s) \<Longrightarrow> \<exists>r. create_category_folders_loop E cs s w = (r, w)"
proof (induction cs)
  case Nil
  show ?case by simp
next
  case (Cons c cs)
  let ?p = "source_folder s @ [c]"
  from Cons.prems have
    "\<not> exists (fs w) ?p \<Longrightarrow> mkdir_parents (dir_size E) (fs w) ?p = Inl PermissionError"
    by (simp add: mkdir_parents_read_only parent_def)
  with Cons show ?case by (auto simp: Let_def)
qed

lemma iterdir_dir:
  "is_dir fsys d \<Longrightarrow> iterdir fsys d = Inr (filter (\<lambda>p. p \<noteq> [] \<and> parent p = d) (map fst fsys))"
  by (auto simp: iterdir_def is_dir_def split: option.splits node.splits)

lemma iterdir_not_dir: "\<not> is_dir fsys d \<Longrightarrow> \<exists>e. iterdir fsys d = Inl e"
  by (auto simp: iterdir_def is_dir_def split: option.splits node.splits)

section \<open>\<open>organize_files\<close> as a whole\<close>

text \<open>
  The snapshot of a run, computed on the file system the run starts from: the entries
  directly inside the source folder that pass the filter of \<open>organize_files\<close>.
\<close>

definition snapshot :: "organizer \<Rightarrow> world \<Rightarrow> path list" where
  "snapshot s w =
     files_to_process (fs w)
       (filter (\<lambda>p. p \<noteq> [] \<and> parent p = source_folder s) (map fst (fs w)))"

lemma create_category_folders_loop_file:
  "lookup (fs w) (source_folder s) = Some (File d) \<Longrightarrow>
   \<exists>r. create_category_folders_loop E cs s w = (r, w)"
proof (induction cs)
  case Nil
  show ?case by simp
next
  case (Cons c cs)
  let ?p = "source_folder s @ [c]"
  from Cons.prems have "\<not> exists (fs w) ?p \<Longrightarrow> os_mkdir (dir_size E) (fs w) ?p = Inl NotADirectoryError"
    by (simp add: os_mkdir_def parent_def)
  moreover have "\<not> exists (fs w) ?p \<Longrightarrow> \<not> is_dir (fs w) ?p"
    by (auto simp: exists_def is_dir_def)
  ultimately have "\<not> exists (fs w) ?p \<Longrightarrow> mkdir_parents (dir_size E) (fs w) ?p = Inl NotADirectoryError"
    by (subst mkdir_parents.simps) simp
  with Cons show ?case by (auto simp: Let_def)
qed

lemma organize_files_missing:
  "\<not> exists (fs w) (source_folder s) \<Longrightarrow> organize_files E s w = (Inr False, s, w)"
  by (simp add: organize_files_def)

lemma organize_files_not_dir:
  assumes "exists (fs w) (source_folder s)" "\<not> is_dir (fs w) (source_folder s)"
  shows "\<exists>e. organize_files E s w = (Inl e, s, w)"
proof -
  from assms obtain d where d: "lookup (fs w) (source_folder s) = Some (File d)"
    by (auto simp: exists_def is_dir_def split: option.splits node.splits)
  from create_category_folders_loop_file [OF d] obtain r where
    r: "create_category_folders E s w = (r, w)"
    unfolding create_category_folders_def by blast
  from d have "iterdir (fs w) (source_folder s) = Inl NotADirectoryError"
    by (simp add: iterdir_def)
  with r assms(1) show ?thesis
    by (cases r) (auto simp: organize_files_def)
qed

text \<open>
  A run on a source folder that is a directory: unless it is a real run that a read-only
  source folder stops while the category folders are created, it is \<open>process_all\<close> over
  the snapshot of the file system it started from.
\<close>

lemma organize_files_dir:
  assumes "is_dir (fs w) (source_folder s)"
  shows "\<exists>new. fresh_dirs (fs w) new
     \<and> (dry_run s \<or> read_only (fs w) (source_folder s) \<longrightarrow> new = [])
     \<and> ((\<exists>e. \<not> dry_run s \<and> read_only (fs w) (source_folder s)
              \<and> organize_files E s w = (Inl e, s, w))
        \<or> organize_files E s w =
            (case process_all E (snapshot s w) (set_processed (length (snapshot s w)) s)
                    (w\<lparr>fs := fs w @ new\<rparr>) of
               (Inl e, s2, w2) \<Rightarrow> (Inl e, s2, w2)
             | (Inr u, s2, w2) \<Rightarrow> (Inr True, s2, w2)))"
proof -
  from assms have ex: "exists (fs w) (source_folder s)"
    by (auto simp: is_dir_def exists_def split: option.splits)
  have run: "organize_files E s w =
            (case process_all E (snapshot s w) (set_processed (length (snapshot s w)) s)
                    (w\<lparr>fs := fs w @ new\<rparr>) of
               (Inl e, s2, w2) \<Rightarrow> (Inl e, s2, w2)
             | (Inr u, s2, w2) \<Rightarrow> (Inr True, s2, w2))"
    if n: "create_category_folders E s w = (Inr (), w\<lparr>fs := fs w @ new\<rparr>)"
      "fresh_dirs (fs w) new" for new
  proof -
    have it: "iterdir (fs w @ new) (source_folder s)
              = Inr (filter (\<lambda>p. p \<noteq> [] \<and> parent p = source_folder s) (map fst (fs w @ new)))"
      using assms by (intro iterdir_dir is_dir_append)
    have "files_to_process (fs w @ new)
            (filter (\<lambda>p. p \<noteq> [] \<and> parent p = source_folder s) (map fst (fs w @ new)))
          = snapshot s w"
      unfolding snapshot_def by (rule files_to_process_append [OF n(2)])
    with ex n it show ?thesis
      by (simp add: organize_files_def Let_def)
  qed
  show ?thesis
  proof (cases "dry_run s")
    case True
    then have "create_category_folders E s w = (Inr (), w\<lparr>fs := fs w @ []\<rparr>)"
      by (simp add: create_category_folders_def create_category_folders_loop_dry)
    from run [OF this] True show ?thesis
      by (intro exI [of _ "[]"]) simp
  next
    case real: False
    show ?thesis
    proof (cases "read_only (fs w) (source_folder s)")
      case True
      from create_category_folders_loop_read_only [OF True, of E "map fst (categories s)"]
      obtain r where r: "create_category_folders E s w = (r, w)"
        unfolding create_category_folders_def by blast
      show ?thesis
      proof (cases r)
        case (Inl e)
        with r ex have "organize_files E s w = (Inl e, s, w)"
          by (simp add: organize_files_def)
        with real True show ?thesis
          by (intro exI [of _ "[]"]) simp
      next
        case (Inr u)
        with r have "create_category_folders E s w = (Inr (), w\<lparr>fs := fs w @ []\<rparr>)" by simp
        from run [OF this] show ?thesis
          by (intro exI [of _ "[]"]) simp
      qed
    next
      case False
      with assms have "writable_dir (fs w) (source_folder s)" by (simp add: is_dir_iff)
      from create_category_folders_loop_real [OF this, of E "map fst (categories s)"]
      obtain new where n: "create_category_folders E s w = (Inr (), w\<lparr>fs := fs w @ new\<rparr>)"
        "fresh_dirs (fs w) new"
        unfolding create_category_folders_def by blast
      from run [OF n] n(2) False real show ?thesis
        by (intro exI [of _ new]) simp
    qed
  qed
qed

lemma processed_set_processed [simp]: "processed (stat (set_processed k s)) = k"
  by (simp add: set_processed_def)

text \<open>What a run that returned True has done.\<close>

lemma organize_files_returned:
  assumes "organize_files E s w = (Inr True, s', w')"
  shows "is_dir (fs w) (source_folder s)
     \<and> (\<exists>new. fresh_dirs (fs w) new \<and> (dry_run s \<longrightarrow> new = [])
          \<and> process_all E (snapshot s w) (set_processed (length (snapshot s w)) s)
                (w\<lparr>fs := fs w @ new\<rparr>) = (Inr (), s', w'))"
proof (cases "is_dir (fs w) (source_folder s)")
  case True
  from organize_files_dir [OF True, of E] assms obtain new where
    n: "fresh_dirs (fs w) new" "dry_run s \<longrightarrow> new = []"
    "organize_files E s w =
       (case process_all E (snapshot s w) (set_processed (length (snapshot s w)) s)
               (w\<lparr>fs := fs w @ new\<rparr>) of
          (Inl e, s2, w2) \<Rightarrow> (Inl e, s2, w2)
        | (Inr u, s2, w2) \<Rightarrow> (Inr True, s2, w2))" by auto
  from n(3) assms have "process_all E (snapshot s w) (set_processed (length (snapshot s w)) s)
               (w\<lparr>fs := fs w @ new\<rparr>) = (Inr (), s', w')"
    by (auto split: prod.splits sum.splits)
  with True n(1,2) show ?thesis by blast
next
  case False
  show ?thesis
  proof (cases "exists (fs w) (source_folder s)")
    case True
    from organize_files_not_dir [OF True False, of E] assms show ?thesis by auto
  next
    case f: False
    from organize_files_missing [OF f, of E] assms show ?thesis by simp
  qed
qed

lemma organize_files_step:
  assumes "organize_files E s w = (r, s', w')"
  shows "source_folder s' = source_folder s \<and> dry_run s' = dry_run s
         \<and> categories s' = categories s \<and> hash_cache s \<subseteq>\<^sub>m hash_cache s'"
proof (cases "is_dir (fs w) (source_folder s)")
  case True
  from organize_files_dir [OF True, of E] obtain new where
    o: "(\<exists>e. organize_files E s w = (Inl e, s, w))
        \<or> organize_files E s w =
         (case process_all E (snapshot s w) (set_processed (length (snapshot s w)) s)
                 (w\<lparr>fs := fs w @ new\<rparr>) of
            (Inl e, s2, w2) \<Rightarrow> (Inl e, s2, w2)
          | (Inr u, s2, w2) \<Rightarrow> (Inr True, s2, w2))" by blast
  obtain r2 s2 w2 where p: "process_all E (snapshot s w) (set_processed (length (snapshot s w)) s)
                 (w\<lparr>fs := fs w @ new\<rparr>) = (r2, s2, w2)"
    by (cases "process_all E (snapshot s w) (set_processed (length (snapshot s w)) s)
                 (w\<lparr>fs := fs w @ new\<rparr>)")
  from o p assms have "s' = s \<or> s' = s2" by (cases r2) auto
  with process_all_step [OF p] show ?thesis
    by (auto simp: step_ok_def set_processed_def)
next
  case False
  show ?thesis
  proof (cases "exists (fs w) (source_folder s)")
    case True
    from organize_files_not_dir [OF True False, of E] assms show ?thesis by auto
  next
    case f: False
    from organize_files_missing [OF f, of E] assms show ?thesis by simp
  qed
qed

lemma organize_files_dry:
  assumes "organize_files E s w = (r, s', w')" "dry_run s"
  shows "dry_ok s s' \<and> fs w' = fs w"
proof (cases "is_dir (fs w) (source_folder s)")
  case True
  from organize_files_dir [OF True, of E] assms(2) have
    o: "organize_files E s w =
         (case process_all E (snapshot s w) (set_processed (length (snapshot s w)) s) w of
            (Inl e, s2, w2) \<Rightarrow> (Inl e, s2, w2)
          | (Inr u, s2, w2) \<Rightarrow> (Inr True, s2, w2))" by auto
  obtain r2 s2 w2 where p: "process_all E (snapshot s w) (set_processed (length (snapshot s w)) s) w
                             = (r2, s2, w2)"
    by (cases "process_all E (snapshot s w) (set_processed (length (snapshot s w)) s) w")
  from o p assms have e: "s' = s2" "w' = w2" by (cases r2; auto)+
  from assms(2) have "dry_run (set_processed (length (snapshot s w)) s)"
    by (simp add: set_processed_def)
  from process_all_dry [OF p this] e show ?thesis
    by (simp add: dry_ok_def set_processed_def)
next
  case False
  show ?thesis
  proof (cases "exists (fs w) (source_folder s)")
    case True
    from organize_files_not_dir [OF True False, of E] assms show ?thesis by auto
  next
    case f: False
    from organize_files_missing [OF f, of E] assms show ?thesis by simp
  qed
qed

section \<open>Runs on the example inputs\<close>

text \<open>The definitions the simplifier unfolds to run the organizer on a concrete input.\<close>

lemmas run_defs = organize_files_def create_category_folders_def get_category_mappings_def
  FileOrganizer_init_def init_stats_def iterdir_def files_to_process_def process_file_def
  place_in_category_def get_unique_filename_def get_unique_filename_iters_def
  check_case_insensitive_duplicate_def shutil_move_def unlink_def name_def parent_def
  suffix_def rsplit_dot_def lower_def lower_char_def startswith_dot_def
  set_processed_def inc_moved_def inc_renamed_def inc_skipped_def inc_errors_def
  inc_duplicates_found_def add_duplicates_removed_def remove_found_duplicate_def
  mkdir_parents_in_dir writable_dir_def unique_loop.simps is_exact_duplicate_def Let_def

definition world_dup :: world where
  "world_dup =
     \<lparr>fs = [([], Dir 4096), ([''home''], Dir 4096), ([''home'', ''u''], Dir 4096),
             (downloads, Dir 4096),
             (downloads @ [''a.txt''], regular ''AAAAA'' 10),
             (downloads @ [''Documents''], Dir 4096),
             (downloads @ [''Documents'', ''a.txt''], regular ''AAAAA'' 5)],
      tick = 0\<rparr>"

lemma pair_moved:
  "process_file example_env (downloads @ [''a.txt'']) (FileOrganizer_init downloads False) world_pair
   = (Inr (),
      (FileOrganizer_init downloads False)
        \<lparr>stat := init_stats\<lparr>moved := 1, renamed := 1\<rparr>,
         hash_cache := [downloads @ [''a.txt''] \<mapsto> ''md5:AAAAA'',
                        downloads @ [''Documents'', ''a.txt''] \<mapsto> ''md5:BBBBB'']\<rparr>,
      \<lparr>fs = [([], Dir 4096), ([''home''], Dir 4096), ([''home'', ''u''], Dir 4096),
             (downloads, Dir 4096),
             (downloads @ [''Documents''], Dir 4096),
             (downloads @ [''Documents'', ''a.txt''], regular ''BBBBB'' 5),
             (downloads @ [''Documents'', ''b.txt''], regular ''BBBBBBB'' 6),
             (downloads @ [''x.txt''], unreadable ''CCC'' 1),
             (downloads @ [''Documents'', ''x.txt''], unreadable ''CCC'' 2),
             (downloads @ [''Documents'', ''a_1.txt''], regular ''AAAAA'' 10)],
      tick = 0\<rparr>)"
  by (simp add: world_pair_def example_env_def fs_defs run_defs str_nat.simps digit_def)

lemma dup_deleted:
  "process_file example_env (downloads @ [''a.txt'']) (FileOrganizer_init downloads False) world_dup
   = (Inr (),
      (FileOrganizer_init downloads False)
        \<lparr>stat := init_stats\<lparr>duplicates_found := 1, duplicates_removed := 1\<rparr>,
         hash_cache := [downloads @ [''a.txt''] \<mapsto> ''md5:AAAAA'',
                        downloads @ [''Documents'', ''a.txt''] \<mapsto> ''md5:AAAAA'']\<rparr>,
      \<lparr>fs = [([], Dir 4096), ([''home''], Dir 4096), ([''home'', ''u''], Dir 4096),
             (downloads, Dir 4096),
             (downloads @ [''Documents''], Dir 4096),
             (downloads @ [''Documents'', ''a.txt''], regular ''AAAAA'' 5)],
      tick = 0\<rparr>)"
  by (simp add: world_dup_def example_env_def fs_defs run_defs)

definition world_small :: world where
  "world_small =
     \<lparr>fs = [([], Dir 4096), ([''home''], Dir 4096), ([''home'', ''u''], Dir 4096),
             (downloads, Dir 4096),
             (downloads @ [''Documents''], Dir 4096),
             (downloads @ [''a.txt''], regular ''AAAAA'' 10)],
      tick = 0\<rparr>"

definition world_empty :: world where
  "world_empty = \<lparr>fs = [([], Dir 4096), ([''home''], Dir 4096), ([''home'', ''u''], Dir 4096)],
                   tick = 0\<rparr>"

section \<open>Claims about \<open>organize_files\<close>\<close>

text \<open>
  Claim C9. When the source folder does not exist, \<open>organize_files\<close> returns False at
  once: the organizer, its counters included, and the file system are what they were.
\<close>

theorem organize_files_fails_fast:
  "\<not> exists (fs w) (source_folder s) \<Longrightarrow> organize_files E s w = (Inr False, s, w)"
  by (rule organize_files_missing)

theorem organize_files_fails_fast_witness:
  "\<not> exists (fs world_empty) (source_folder (FileOrganizer_init downloads False))
   \<and> organize_files example_env (FileOrganizer_init downloads False) world_empty
       = (Inr False, FileOrganizer_init downloads False, world_empty)"
  using organize_files_fails_fast [of world_empty "FileOrganizer_init downloads False" example_env]
  by (simp add: world_empty_def FileOrganizer_init_def exists_def lookup_def downloads_def)

lemma save_report_dry:
  "dry_run s \<Longrightarrow> save_report E rp s w = (Inr (), w\<lparr>tick := tick w + 1\<rparr>)"
  by (simp add: save_report_def Let_def)

lemma snapshot_dry_run [simp]: "snapshot (s\<lparr>dry_run := b\<rparr>) w = snapshot s w"
  by (simp add: snapshot_def)

section \<open>Claims about \<open>get_unique_filename\<close>\<close>

text \<open>
  Claim C2. \<open>get_unique_filename\<close> is a total function, and its loop body runs at most
  100 times whatever the folder holds, which is within the 101 iterations of the claim:
  the 100th execution generates the name with suffix 100 and replaces it at once by the
  timestamp name.
\<close>

theorem get_unique_filename_bounded:
  "\<exists>r n s' w'. get_unique_filename_iters E file_path target_folder s w = (r, n, s', w')
     \<and> get_unique_filename E file_path target_folder s w = (r, s', w')
     \<and> n \<le> 100 \<and> n \<le> 101"
proof -
  obtain r n s' w' where g: "get_unique_filename_iters E file_path target_folder s w = (r, n, s', w')"
    by (cases "get_unique_filename_iters E file_path target_folder s w")
  then obtain b e where "unique_loop E file_path target_folder b e 1
      (target_folder @ [name file_path]) 0 s w = (r, n, s', w')"
    by (auto simp: get_unique_filename_iters_def Let_def split: prod.splits)
  from unique_loop_bound [OF this] have "n \<le> 100" by auto
  with g show ?thesis by (simp add: get_unique_filename_def)
qed

text \<open>
  The bound is reached: in \<open>storm_world\<close> every numeric candidate is taken, and the loop
  body runs exactly 100 times.
\<close>

lemma get_unique_filename_bound_reached:
  "fst (snd (get_unique_filename_iters example_env (downloads @ [''a.txt''])
     (downloads @ [''Documents'']) (FileOrganizer_init downloads False) storm_world)) = 100"
  by (simp add: storm_result)

text \<open>
  Claim C4, as the spec states it, fails: in \<open>storm_world\<close> the path returned is the
  timestamp name, and a file is already there.
\<close>

theorem returned_path_occupied_counterexample:
  "fst (get_unique_filename example_env (downloads @ [''a.txt'']) (downloads @ [''Documents''])
          (FileOrganizer_init downloads False) storm_world)
     = Some (downloads @ [''Documents'', ''a_20240101_120000_0.txt''])
   \<and> exists (fs (snd (snd (get_unique_filename example_env (downloads @ [''a.txt''])
          (downloads @ [''Documents'']) (FileOrganizer_init downloads False) storm_world))))
        (downloads @ [''Documents'', ''a_20240101_120000_0.txt''])"
proof -
  have "exists (fs (storm_world\<lparr>tick := 1\<rparr>)) (downloads @ [''Documents'', ''a_20240101_120000_0.txt''])"
    using storm_occupied by simp
  then show ?thesis
    by (simp add: get_unique_filename_def storm_result)
qed

text \<open>
  Claim C4, amended. A path returned after fewer than 100 executions of the loop body is
  free: the loop left because \<open>new_path.exists()\<close> was false. After 100 executions the
  path is the timestamp name, returned without a look at the folder. Either way the file
  system is as it was.
\<close>

theorem returned_path_free_unless_forced:
  assumes "get_unique_filename_iters E file_path target_folder s w = (Some p, n, s', w')"
  shows "(n < 100 \<longrightarrow> \<not> exists (fs w') p)
         \<and> (100 \<le> n \<longrightarrow> (\<exists>b e. p = target_folder @ [b @ ''_'' @ strftime_now E (tick w) @ e]))
         \<and> fs w' = fs w"
proof -
  from assms obtain b e where u: "unique_loop E file_path target_folder b e 1
      (target_folder @ [name file_path]) 0 s w = (Some p, n, s', w')"
    by (auto simp: get_unique_filename_iters_def Let_def split: prod.splits)
  show ?thesis
  proof (cases "n < 100")
    case True
    with unique_loop_free [OF u] show ?thesis by auto
  next
    case False
    with unique_loop_forced [OF u] show ?thesis by auto
  qed
qed

lemma pair_renamed:
  "get_unique_filename_iters example_env (downloads @ [''a.txt'']) (downloads @ [''Documents''])
     (FileOrganizer_init downloads False) world_pair
   = (Some (downloads @ [''Documents'', ''a_1.txt'']), 1,
      (FileOrganizer_init downloads False)
        \<lparr>hash_cache := [downloads @ [''a.txt''] \<mapsto> ''md5:AAAAA'',
                        downloads @ [''Documents'', ''a.txt''] \<mapsto> ''md5:BBBBB'']\<rparr>,
      world_pair)"
  by (simp add: world_pair_def example_env_def fs_defs run_defs str_nat.simps digit_def)

theorem returned_path_free_unless_forced_witness:
  "get_unique_filename_iters example_env (downloads @ [''a.txt'']) (downloads @ [''Documents''])
     (FileOrganizer_init downloads False) world_pair
   = (Some (downloads @ [''Documents'', ''a_1.txt'']), 1,
      (FileOrganizer_init downloads False)
        \<lparr>hash_cache := [downloads @ [''a.txt''] \<mapsto> ''md5:AAAAA'',
                        downloads @ [''Documents'', ''a.txt''] \<mapsto> ''md5:BBBBB'']\<rparr>,
      world_pair)
   \<and> \<not> exists (fs world_pair) (downloads @ [''Documents'', ''a_1.txt''])
   \<and> get_unique_filename_iters example_env (downloads @ [''a.txt'']) (downloads @ [''Documents''])
     (FileOrganizer_init downloads False) storm_world
   = (Some (downloads @ [''Documents'', ''a_20240101_120000_0.txt'']), 100,
      FileOrganizer_init downloads False, storm_world\<lparr>tick := 1\<rparr>)
   \<and> (\<exists>b e. downloads @ [''Documents'', ''a_20240101_120000_0.txt'']
         = (downloads @ [''Documents'']) @ [b @ ''_'' @ strftime_now example_env (tick storm_world) @ e])"
  using returned_path_free_unless_forced [OF pair_renamed]
        returned_path_free_unless_forced [OF storm_result]
  by (simp add: pair_renamed storm_result)

section \<open>The hash cache\<close>

text \<open>
  Claim C3, as the spec states it, fails: nothing in the program removes an entry from
  \<open>hash_cache\<close>. After \<open>process_file\<close> has deleted a duplicate, and after it has moved a
  file, the source path is gone from the file system and is still a key of the cache.
\<close>

theorem stale_cache_entry_counterexample:
  "\<not> exists (fs (snd (snd (process_file example_env (downloads @ [''a.txt''])
          (FileOrganizer_init downloads False) world_dup)))) (downloads @ [''a.txt''])
   \<and> hash_cache (fst (snd (process_file example_env (downloads @ [''a.txt''])
          (FileOrganizer_init downloads False) world_dup))) (downloads @ [''a.txt''])
       = Some ''md5:AAAAA''
   \<and> \<not> exists (fs (snd (snd (process_file example_env (downloads @ [''a.txt''])
          (FileOrganizer_init downloads False) world_pair)))) (downloads @ [''a.txt''])
   \<and> hash_cache (fst (snd (process_file example_env (downloads @ [''a.txt''])
          (FileOrganizer_init downloads False) world_pair))) (downloads @ [''a.txt''])
       = Some ''md5:AAAAA''"
  unfolding dup_deleted pair_moved
  by (simp add: exists_def lookup_def downloads_def)

lemma remove_duplicates_cache:
  "hash_cache (fst (snd (remove_duplicates E keep_oldest s w))) = hash_cache s"
  by (auto simp: remove_duplicates_def add_duplicates_removed_def
           split: sum.splits prod.splits)

text \<open>
  Claim C3, amended. The cache only grows: every entry present before \<open>process_file\<close>,
  before \<open>organize_files\<close> or before \<open>remove_duplicates\<close> is present afterwards with
  the same hash, whether or not the file at that path was deleted or moved meanwhile.
\<close>

theorem hash_cache_only_grows:
  "hash_cache s \<subseteq>\<^sub>m hash_cache (fst (snd (process_file E file_path s w)))
   \<and> hash_cache s \<subseteq>\<^sub>m hash_cache (fst (snd (organize_files E s w)))
   \<and> hash_cache (fst (snd (remove_duplicates E keep_oldest s w))) = hash_cache s"
proof -
  obtain r1 s1 w1 where p: "process_file E file_path s w = (r1, s1, w1)"
    by (cases "process_file E file_path s w")
  obtain r2 s2 w2 where "organize_files E s w = (r2, s2, w2)"
    by (cases "organize_files E s w")
  with organize_files_step [OF this] process_file_step [OF p] p show ?thesis
    by (simp add: step_ok_def remove_duplicates_cache)
qed

theorem hash_cache_only_grows_witness:
  "hash_cache (fst (snd (process_file example_env (downloads @ [''a.txt''])
       ((FileOrganizer_init downloads False)\<lparr>hash_cache := [downloads @ [''a.txt''] \<mapsto> ''md5:AAAAA'']\<rparr>)
       world_dup))) (downloads @ [''a.txt'']) = Some ''md5:AAAAA''"
  using hash_cache_only_grows [of
      "(FileOrganizer_init downloads False)\<lparr>hash_cache := [downloads @ [''a.txt''] \<mapsto> ''md5:AAAAA'']\<rparr>"
      example_env "downloads @ [''a.txt'']" world_dup]
  by (simp add: map_le_def)

section \<open>The snapshot\<close>

definition world_report :: world where
  "world_report =
     \<lparr>fs = [([], Dir 4096), ([''home''], Dir 4096), ([''home'', ''u''], Dir 4096),
             (downloads, Dir 4096),
             (downloads @ [''notes.log''], regular ''some notes'' 3)],
      tick = 0\<rparr>"

text \<open>
  Claim C8, as the spec states it, fails in both directions: the report file that
  \<open>save_report\<close> writes into the source folder is in the snapshot of the next run, and a
  regular, visible file that is no report but ends in \<open>.log\<close> is not.
\<close>

theorem snapshot_report_counterexample:
  "downloads @ [''organization_report.json'']
     \<in> set (snapshot (FileOrganizer_init downloads False)
               (snd (save_report example_env None (FileOrganizer_init downloads False) world_report)))
   \<and> is_file (fs world_report) (downloads @ [''notes.log''])
   \<and> \<not> startswith_dot (name (downloads @ [''notes.log'']))
   \<and> downloads @ [''notes.log''] \<notin> set (snapshot (FileOrganizer_init downloads False) world_report)"
  by (simp add: snapshot_def save_report_def write_file_def world_report_def fs_defs run_defs
        example_env_def)

lemma in_snapshot_iff:
  "p \<in> set (snapshot s w) \<longleftrightarrow>
     p \<noteq> [] \<and> parent p = source_folder s \<and> is_file (fs w) p
     \<and> \<not> startswith_dot (name p) \<and> suffix p \<noteq> ''.log''"
proof -
  have "is_file (fs w) p \<Longrightarrow> p \<in> fst ` set (fs w)"
    by (auto simp: is_file_def lookup_def split: option.splits dest: map_of_SomeD
             intro: rev_image_eqI)
  then show ?thesis
    by (auto simp: snapshot_def files_to_process_def)
qed

section \<open>The category of a file\<close>

definition world_slides :: world where
  "world_slides =
     \<lparr>fs = [([], Dir 4096), ([''home''], Dir 4096), ([''home'', ''u''], Dir 4096),
             (downloads, Dir 4096),
             (downloads @ [''Documents''], Dir 4096),
             (downloads @ [''Presentations''], Dir 4096),
             (downloads @ [''Certificates''], Dir 4096),
             (downloads @ [''Talk.PPTX''], regular ''slides'' 7),
             (downloads @ [''id.key''], regular ''secret'' 8)],
      tick = 0\<rparr>"

lemma process_categories_first_match:
  "process_categories E file_path file_ext cats s w =
     (case find (\<lambda>(category, extensions). file_ext \<in> set extensions) cats of
        None \<Rightarrow> (Inr (), inc_skipped s, w)
      | Some (category, extensions) \<Rightarrow> place_in_category E file_path category s w)"
  by (induction cats) auto

text \<open>
  Claim C10. \<open>process_file\<close> handles the file in the first category of the table, in the
  table's order, whose extension list holds the lower-cased suffix, and in no other: it
  is \<open>place_in_category\<close> for that category, or one more \<open>skipped\<close> when there is none.
  With the table of \<open>get_category_mappings\<close> that category is Documents for \<open>.pptx\<close> and
  Presentations for \<open>.key\<close>.
\<close>

theorem first_category_wins:
  "process_file E file_path s w =
     (case find (\<lambda>(category, extensions). lower (suffix file_path) \<in> set extensions)
             (categories s) of
        None \<Rightarrow> (Inr (), inc_skipped s, w)
      | Some (category, extensions) \<Rightarrow> place_in_category E file_path category s w)
   \<and> (categories s = get_category_mappings \<and> lower (suffix file_path) = ''.pptx''
        \<longrightarrow> process_file E file_path s w = place_in_category E file_path ''Documents'' s w)
   \<and> (categories s = get_category_mappings \<and> lower (suffix file_path) = ''.key''
        \<longrightarrow> process_file E file_path s w = place_in_category E file_path ''Presentations'' s w)"
  by (simp add: process_file_def process_categories_first_match get_category_mappings_def)

lemma slides_pptx:
  "fs (snd (snd (place_in_category example_env (downloads @ [''Talk.PPTX'']) ''Documents''
       (FileOrganizer_init downloads False) world_slides)))
   = [([], Dir 4096), ([''home''], Dir 4096), ([''home'', ''u''], Dir 4096),
      (downloads, Dir 4096),
      (downloads @ [''Documents''], Dir 4096),
      (downloads @ [''Presentations''], Dir 4096),
      (downloads @ [''Certificates''], Dir 4096),
      (downloads @ [''id.key''], regular ''secret'' 8),
      (downloads @ [''Documents'', ''Talk.PPTX''], regular ''slides'' 7)]"
  by (simp add: world_slides_def example_env_def fs_defs run_defs unique_loop_absent)

lemma slides_key:
  "fs (snd (snd (place_in_category example_env (downloads @ [''id.key'']) ''Presentations''
       (FileOrganizer_init downloads False) world_slides)))
   = [([], Dir 4096), ([''home''], Dir 4096), ([''home'', ''u''], Dir 4096),
      (downloads, Dir 4096),
      (downloads @ [''Documents''], Dir 4096),
      (downloads @ [''Presentations''], Dir 4096),
      (downloads @ [''Certificates''], Dir 4096),
      (downloads @ [''Talk.PPTX''], regular ''slides'' 7),
      (downloads @ [''Presentations'', ''id.key''], regular ''secret'' 8)]"
  by (simp add: world_slides_def example_env_def fs_defs run_defs unique_loop_absent)

theorem first_category_wins_witness:
  "categories (FileOrganizer_init downloads False) = get_category_mappings
   \<and> lower (suffix (downloads @ [''Talk.PPTX''])) = ''.pptx''
   \<and> lower (suffix (downloads @ [''id.key''])) = ''.key''
   \<and> fs (snd (snd (process_file example_env (downloads @ [''Talk.PPTX''])
           (FileOrganizer_init downloads False) world_slides)))
      = [([], Dir 4096), ([''home''], Dir 4096), ([''home'', ''u''], Dir 4096),
         (downloads, Dir 4096),
         (downloads @ [''Documents''], Dir 4096),
         (downloads @ [''Presentations''], Dir 4096),
         (downloads @ [''Certificates''], Dir 4096),
         (downloads @ [''id.key''], regular ''secret'' 8),
         (downloads @ [''Documents'', ''Talk.PPTX''], regular ''slides'' 7)]
   \<and> fs (snd (snd (process_file example_env (downloads @ [''id.key''])
           (FileOrganizer_init downloads False) world_slides)))
      = [([], Dir 4096), ([''home''], Dir 4096), ([''home'', ''u''], Dir 4096),
         (downloads, Dir 4096),
         (downloads @ [''Documents''], Dir 4096),
         (downloads @ [''Presentations''], Dir 4096),
         (downloads @ [''Certificates''], Dir 4096),
         (downloads @ [''Talk.PPTX''], regular ''slides'' 7),
         (downloads @ [''Presentations'', ''id.key''], regular ''secret'' 8)]"
proof -
  have c: "categories (FileOrganizer_init downloads False) = get_category_mappings"
    by (simp add: FileOrganizer_init_def)
  have p: "lower (suffix (downloads @ [''Talk.PPTX''])) = ''.pptx''"
    by (simp add: suffix_def name_def rsplit_dot_def lower_def lower_char_def)
  have k: "lower (suffix (downloads @ [''id.key''])) = ''.key''"
    by (simp add: suffix_def name_def rsplit_dot_def lower_def lower_char_def)
  from first_category_wins [of example_env "downloads @ [''Talk.PPTX'']"
         "FileOrganizer_init downloads False" world_slides] c p
  have "process_file example_env (downloads @ [''Talk.PPTX'']) (FileOrganizer_init downloads False)
          world_slides
        = place_in_category example_env (downloads @ [''Talk.PPTX'']) ''Documents''
            (FileOrganizer_init downloads False) world_slides" by blast
  moreover from first_category_wins [of example_env "downloads @ [''id.key'']"
         "FileOrganizer_init downloads False" world_slides] c k
  have "process_file example_env (downloads @ [''id.key'']) (FileOrganizer_init downloads False)
          world_slides
        = place_in_category example_env (downloads @ [''id.key'']) ''Presentations''
            (FileOrganizer_init downloads False) world_slides" by blast
  ultimately show ?thesis using c p k slides_pptx slides_key by simp
qed

section \<open>The counters of a completed run\<close>

text \<open>
  \<open>skipped\<close> is incremented in one place, at the end of \<open>process_file\<close>, when no
  category of the table holds the file's lower-cased suffix; \<open>uncategorized\<close> is that
  condition.
\<close>

definition uncategorized :: "(string \<times> string list) list \<Rightarrow> path \<Rightarrow> bool" where
  "uncategorized cats file_path =
     (find (\<lambda>(category, extensions). lower (suffix file_path) \<in> set extensions) cats = None)"

lemma remove_found_duplicate_skipped:
  "skipped (stat (fst (remove_found_duplicate fp s w))) = skipped (stat s)"
  by (auto simp: remove_found_duplicate_def Let_def inc_duplicates_found_def
        add_duplicates_removed_def inc_errors_def split: sum.splits)

lemma unique_loop_skipped:
  "unique_loop E fp tf b e counter np n s w = (r, n', s', w') \<Longrightarrow>
   skipped (stat s') = skipped (stat s)"
proof (induction E fp tf b e counter np n s w rule: unique_loop.induct)
  case (1 E fp tf b e counter np n s w)
  show ?case
  proof (cases rule: unique_loop_cases [where w = w and np = np and E = E and fp = fp and s = s
                                              and counter = counter])
    case absent
    with "1.prems" show ?thesis by (simp add: unique_loop_absent)
  next
    case (duplicate s1)
    with "1.prems" have "s' = fst (remove_found_duplicate fp s1 w)"
      by (simp add: unique_loop_duplicate)
    with is_exact_duplicate_step [OF duplicate(2)] show ?thesis
      by (simp add: remove_found_duplicate_skipped)
  next
    case (fallback s1)
    with "1.prems" is_exact_duplicate_step [OF fallback(2)] show ?thesis
      by (simp add: unique_loop_fallback)
  next
    case (again s1)
    from again "1.prems" have
      "unique_loop E fp tf b e (counter + 1) (tf @ [b @ ''_'' @ str_nat counter @ e]) (Suc n) s1 w
        = (r, n', s', w')"
      by (simp add: unique_loop_next)
    from "1.IH" [OF again(1) again(2) [symmetric] refl _ _ this] again(3)
      is_exact_duplicate_step [OF again(2)]
    show ?thesis by simp
  qed
qed

lemma get_unique_filename_skipped:
  "get_unique_filename E fp tf s w = (r, s', w') \<Longrightarrow> skipped (stat s') = skipped (stat s)"
  by (auto simp: get_unique_filename_def get_unique_filename_iters_def Let_def
           split: prod.splits dest: unique_loop_skipped)

lemma place_in_category_skipped:
  "place_in_category E fp c s w = (r, s', w') \<Longrightarrow> skipped (stat s') = skipped (stat s)"
proof -
  assume a: "place_in_category E fp c s w = (r, s', w')"
  obtain u s1 w1 where g: "get_unique_filename E fp (source_folder s @ [c]) s w = (u, s1, w1)"
    by (cases "get_unique_filename E fp (source_folder s @ [c]) s w")
  from get_unique_filename_skipped [OF g] have "skipped (stat s1) = skipped (stat s)" .
  with a g show ?thesis
    by (auto simp: place_in_category_def Let_def inc_errors_def inc_moved_def inc_renamed_def
             split: option.splits sum.splits if_splits)
qed

lemma process_file_skipped:
  "process_file E fp s w = (r, s', w') \<Longrightarrow>
   skipped (stat s') = skipped (stat s) + (if uncategorized (categories s) fp then 1 else 0)"
  by (auto simp: process_file_def process_categories_first_match uncategorized_def inc_skipped_def
           split: option.splits dest: place_in_category_skipped)

lemma process_all_skipped:
  "process_all E files s w = (Inr u, s', w') \<Longrightarrow>
   skipped (stat s') = skipped (stat s) + length (filter (uncategorized (categories s)) files)"
proof (induction files arbitrary: s w)
  case Nil
  then show ?case by simp
next
  case (Cons f files)
  obtain r1 s1 w1 where p: "process_file E f s w = (r1, s1, w1)"
    by (cases "process_file E f s w")
  from process_file_step [OF p] have c: "categories s1 = categories s" by (simp add: step_ok_def)
  from p Cons.prems have "process_all E files s1 w1 = (Inr u, s', w')"
    by (cases r1) auto
  from Cons.IH [OF this] process_file_skipped [OF p] c show ?case by simp
qed

text \<open>
  A run that returned True has set \<open>processed\<close> to the size of the snapshot, and has
  added to \<open>skipped\<close> the number of snapshot files without a category.
\<close>

lemma organize_files_counted:
  assumes "organize_files E s w = (Inr True, s', w')"
  shows "processed (stat s') = length (snapshot s w)
     \<and> skipped (stat s') = skipped (stat s)
          + length (filter (uncategorized (categories s)) (snapshot s w))"
proof -
  from organize_files_returned [OF assms] obtain new where
    p: "process_all E (snapshot s w) (set_processed (length (snapshot s w)) s)
          (w\<lparr>fs := fs w @ new\<rparr>) = (Inr (), s', w')" by blast
  from process_all_step [OF p] process_all_skipped [OF p] show ?thesis
    by (simp add: step_ok_def set_processed_def)
qed

definition world_twins :: world where
  "world_twins =
     \<lparr>fs = [([], Dir 4096), ([''home''], Dir 4096), ([''home'', ''u''], Dir 4096),
             (downloads, Dir 4096),
             (downloads @ [''Documents''], Dir 4096),
             (downloads @ [''Documents'', ''a.txt''], regular ''BBBBBBB'' 5),
             (downloads @ [''a.txt''], regular ''AAAAA'' 10),
             (downloads @ [''a_1.txt''], regular ''AAAAA'' 11),
             (downloads @ [''b.txt''],
              File \<lparr>content = ''BB'', mtime = 12, readable = True, locked = True\<rparr>),
             (downloads @ [''c.xyz''], regular ''C'' 13)],
      tick = 0\<rparr>"

lemma twins_snapshot:
  "snapshot (FileOrganizer_init downloads b) world_twins
   = [downloads @ [''a.txt''], downloads @ [''a_1.txt''], downloads @ [''b.txt''],
      downloads @ [''c.xyz'']]"
  by (simp add: snapshot_def world_twins_def fs_defs run_defs)

lemma twins_real:
  "fst (organize_files example_env (FileOrganizer_init downloads False) world_twins) = Inr True
   \<and> stat (fst (snd (organize_files example_env (FileOrganizer_init downloads False) world_twins)))
     = \<lparr>processed = 4, moved = 1, renamed = 1, duplicates_found = 1, duplicates_removed = 1,
        errors = 1, skipped = 1\<rparr>"
  by (simp add: world_twins_def example_env_def fs_defs run_defs str_nat.simps digit_def)

lemma twins_dry:
  "fst (organize_files example_env (FileOrganizer_init downloads True) world_twins) = Inr True
   \<and> stat (fst (snd (organize_files example_env (FileOrganizer_init downloads True) world_twins)))
     = \<lparr>processed = 4, moved = 0, renamed = 0, duplicates_found = 0, duplicates_removed = 0,
        errors = 0, skipped = 1\<rparr>"
  by (simp add: world_twins_def example_env_def fs_defs run_defs str_nat.simps digit_def)

lemma init_dry_run [simp]:
  "(FileOrganizer_init src b)\<lparr>dry_run := c\<rparr> = FileOrganizer_init src c"
  by (simp add: FileOrganizer_init_def)

section \<open>Dry run and real run\<close>

text \<open>
  Claim C1, as the spec states it, fails. In \<open>world_twins\<close> the source folder holds
  \<open>a.txt\<close> and a copy of it named \<open>a_1.txt\<close>, a file \<open>b.txt\<close> that cannot be moved,
  and \<open>c.xyz\<close>, which is in no category; the Documents folder holds another \<open>a.txt\<close>.
  The real run moves \<open>a.txt\<close> to \<open>Documents/a_1.txt\<close>, then finds \<open>a_1.txt\<close> to be a
  copy of it and deletes it, and fails to move \<open>b.txt\<close>. The dry run moves nothing, so
  it finds no copy. Five of the seven counters differ.
\<close>

theorem dry_run_statistics_counterexample:
  "stat (fst (snd (organize_files example_env (FileOrganizer_init downloads True) world_twins)))
     = \<lparr>processed = 4, moved = 0, renamed = 0, duplicates_found = 0, duplicates_removed = 0,
        errors = 0, skipped = 1\<rparr>
   \<and> stat (fst (snd (organize_files example_env (FileOrganizer_init downloads False) world_twins)))
     = \<lparr>processed = 4, moved = 1, renamed = 1, duplicates_found = 1, duplicates_removed = 1,
        errors = 1, skipped = 1\<rparr>
   \<and> stat (fst (snd (organize_files example_env (FileOrganizer_init downloads True) world_twins)))
     \<noteq> stat (fst (snd (organize_files example_env (FileOrganizer_init downloads False) world_twins)))"
  by (simp add: twins_real twins_dry)

text \<open>
  Claim C1, amended. A dry run leaves the file system as it was, also through
  \<open>save_report\<close>, and leaves \<open>moved\<close>, \<open>renamed\<close>, \<open>duplicates_removed\<close> and \<open>errors\<close>
  where they started, since each is incremented only under \<open>if not self.dry_run\<close>. A
  run of either kind that returns True has set \<open>processed\<close> to the size of the snapshot
  and has added to \<open>skipped\<close> the number of snapshot files without a category; so when
  the dry run and the real run on the same input both return True, they agree on
  \<open>processed\<close> and on \<open>skipped\<close>. Nothing is said of \<open>duplicates_found\<close>, nor of a run
  that an exception ends.
\<close>

theorem dry_run_preview:
  "fs (snd (snd (organize_files E (s\<lparr>dry_run := True\<rparr>) w))) = fs w
   \<and> fs (snd (save_report E rp (fst (snd (organize_files E (s\<lparr>dry_run := True\<rparr>) w)))
                (snd (snd (organize_files E (s\<lparr>dry_run := True\<rparr>) w))))) = fs w
   \<and> dry_ok s (fst (snd (organize_files E (s\<lparr>dry_run := True\<rparr>) w)))
   \<and> (\<forall>b. fst (organize_files E (s\<lparr>dry_run := b\<rparr>) w) = Inr True \<longrightarrow>
          processed (stat (fst (snd (organize_files E (s\<lparr>dry_run := b\<rparr>) w))))
            = length (snapshot s w)
          \<and> skipped (stat (fst (snd (organize_files E (s\<lparr>dry_run := b\<rparr>) w))))
            = skipped (stat s) + length (filter (uncategorized (categories s)) (snapshot s w)))
   \<and> (fst (organize_files E (s\<lparr>dry_run := True\<rparr>) w) = Inr True
        \<and> fst (organize_files E (s\<lparr>dry_run := False\<rparr>) w) = Inr True \<longrightarrow>
          processed (stat (fst (snd (organize_files E (s\<lparr>dry_run := True\<rparr>) w))))
            = processed (stat (fst (snd (organize_files E (s\<lparr>dry_run := False\<rparr>) w))))
          \<and> skipped (stat (fst (snd (organize_files E (s\<lparr>dry_run := True\<rparr>) w))))
            = skipped (stat (fst (snd (organize_files E (s\<lparr>dry_run := False\<rparr>) w)))))"
proof -
  obtain r1 s1 w1 where d: "organize_files E (s\<lparr>dry_run := True\<rparr>) w = (r1, s1, w1)"
    by (cases "organize_files E (s\<lparr>dry_run := True\<rparr>) w")
  from organize_files_dry [OF d] have k: "dry_ok (s\<lparr>dry_run := True\<rparr>) s1" "fs w1 = fs w"
    by auto
  from organize_files_step [OF d] have "dry_run s1" by simp
  then have r: "fs (snd (save_report E rp s1 w1)) = fs w1"
    by (simp add: save_report_dry)
  from k(1) have o: "dry_ok s s1" by (simp add: dry_ok_def)
  have c: "processed (stat (fst (snd (organize_files E (s\<lparr>dry_run := b\<rparr>) w))))
            = length (snapshot s w)
          \<and> skipped (stat (fst (snd (organize_files E (s\<lparr>dry_run := b\<rparr>) w))))
            = skipped (stat s) + length (filter (uncategorized (categories s)) (snapshot s w))"
    if "fst (organize_files E (s\<lparr>dry_run := b\<rparr>) w) = Inr True" for b
  proof -
    from that obtain s2 w2 where "organize_files E (s\<lparr>dry_run := b\<rparr>) w = (Inr True, s2, w2)"
      by (cases "organize_files E (s\<lparr>dry_run := b\<rparr>) w") auto
    from organize_files_counted [OF this] this show ?thesis by simp
  qed
  from c [of True] c [of False] have
    "fst (organize_files E (s\<lparr>dry_run := True\<rparr>) w) = Inr True
        \<and> fst (organize_files E (s\<lparr>dry_run := False\<rparr>) w) = Inr True \<longrightarrow>
          processed (stat (fst (snd (organize_files E (s\<lparr>dry_run := True\<rparr>) w))))
            = processed (stat (fst (snd (organize_files E (s\<lparr>dry_run := False\<rparr>) w))))
          \<and> skipped (stat (fst (snd (organize_files E (s\<lparr>dry_run := True\<rparr>) w))))
            = skipped (stat (fst (snd (organize_files E (s\<lparr>dry_run := False\<rparr>) w))))"
    by simp
  with d k(2) r o c show ?thesis by simp
qed

theorem dry_run_preview_witness:
  "fst (organize_files example_env (FileOrganizer_init downloads True) world_twins) = Inr True
   \<and> fst (organize_files example_env (FileOrganizer_init downloads False) world_twins) = Inr True
   \<and> fs (snd (snd (organize_files example_env (FileOrganizer_init downloads True) world_twins)))
       = fs world_twins
   \<and> fs (snd (save_report example_env None
              (fst (snd (organize_files example_env (FileOrganizer_init downloads True) world_twins)))
              (snd (snd (organize_files example_env (FileOrganizer_init downloads True) world_twins)))))
       = fs world_twins
   \<and> length (snapshot (FileOrganizer_init downloads False) world_twins) = 4
   \<and> processed (stat (fst (snd (organize_files example_env (FileOrganizer_init downloads True)
        world_twins)))) = 4
   \<and> processed (stat (fst (snd (organize_files example_env (FileOrganizer_init downloads False)
        world_twins)))) = 4
   \<and> skipped (stat (fst (snd (organize_files example_env (FileOrganizer_init downloads True)
        world_twins)))) = 1
   \<and> skipped (stat (fst (snd (organize_files example_env (FileOrganizer_init downloads False)
        world_twins)))) = 1"
  using dry_run_preview [of example_env "FileOrganizer_init downloads False" world_twins None]
  by (simp add: twins_real twins_dry twins_snapshot)

section \<open>The files a run handles\<close>

text \<open>
  The trace of the loop \<open>for file_path in files_to_process: self.process_file(file_path)\<close>:
  the files on which \<open>process_file\<close> is called, in the order of the calls. The loop ends
  with the list, or with the first call out of which an exception escapes.
\<close>

fun handled :: "env \<Rightarrow> path list \<Rightarrow> organizer \<Rightarrow> world \<Rightarrow> path list" where
  "handled E [] s w = []"
| "handled E (file_path # rest) s w =
     file_path # (case process_file E file_path s w of
                    (Inl e, s1, w1) \<Rightarrow> []
                  | (Inr u, s1, w1) \<Rightarrow> handled E rest s1 w1)"

text \<open>
  The same for \<open>organize_files\<close>: no call when the source folder is missing, when
  creating the category folders fails or when the folder cannot be listed.
\<close>

definition files_handled :: "env \<Rightarrow> organizer \<Rightarrow> world \<Rightarrow> path list" where
  "files_handled E s w =
     (if \<not> exists (fs w) (source_folder s) then []
      else
        case create_category_folders E s w of
          (Inl e, w1) \<Rightarrow> []
        | (Inr u, w1) \<Rightarrow>
            (case iterdir (fs w1) (source_folder s) of
               Inl e \<Rightarrow> []
             | Inr items \<Rightarrow>
                 (let files = files_to_process (fs w1) items;
                      s1 = set_processed (length files) s
                  in handled E files s1 w1)))"

lemma handled_prefix: "\<exists>rest. files = handled E files s w @ rest"
proof (induction files arbitrary: s w)
  case Nil
  show ?case by simp
next
  case (Cons f files)
  obtain r1 s1 w1 where p: "process_file E f s w = (r1, s1, w1)"
    by (cases "process_file E f s w")
  from Cons.IH [of s1 w1] p show ?case
    by (cases r1) auto
qed

lemma handled_all: "process_all E files s w = (Inr u, s', w') \<Longrightarrow> handled E files s w = files"
proof (induction files arbitrary: s w)
  case Nil
  show ?case by simp
next
  case (Cons f files)
  obtain r1 s1 w1 where p: "process_file E f s w = (r1, s1, w1)"
    by (cases "process_file E f s w")
  from p Cons.prems have "process_all E files s1 w1 = (Inr u, s', w')"
    by (cases r1) auto
  from Cons.IH [OF this] p Cons.prems show ?case
    by (cases r1) auto
qed

lemma process_all_handled: "process_all E (handled E files s w) s w = process_all E files s w"
proof (induction files arbitrary: s w)
  case Nil
  show ?case by simp
next
  case (Cons f files)
  obtain r1 s1 w1 where p: "process_file E f s w = (r1, s1, w1)"
    by (cases "process_file E f s w")
  from Cons.IH [of s1 w1] p show ?case
    by (cases r1) auto
qed

lemma snapshot_distinct: "distinct (map fst (fs w)) \<Longrightarrow> distinct (snapshot s w)"
  by (simp add: snapshot_def files_to_process_def)

text \<open>
  Creating the category folders inside a directory appends directories at free paths
  and does nothing else, whether it succeeds or is stopped.
\<close>

lemma create_category_folders_fresh:
  assumes "is_dir (fs w) (source_folder s)"
  shows "\<exists>new. snd (create_category_folders E s w) = w\<lparr>fs := fs w @ new\<rparr>
           \<and> fresh_dirs (fs w) new \<and> (dry_run s \<longrightarrow> new = [])"
proof (cases "dry_run s")
  case True
  then have "snd (create_category_folders E s w) = w\<lparr>fs := fs w @ []\<rparr>"
    by (simp add: create_category_folders_def create_category_folders_loop_dry)
  with True show ?thesis
    by (intro exI [of _ "[]"]) simp
next
  case real: False
  show ?thesis
  proof (cases "read_only (fs w) (source_folder s)")
    case True
    from create_category_folders_loop_read_only [OF True, of E "map fst (categories s)"]
    have "snd (create_category_folders E s w) = w\<lparr>fs := fs w @ []\<rparr>"
      unfolding create_category_folders_def by auto
    with real show ?thesis
      by (intro exI [of _ "[]"]) simp
  next
    case False
    with assms have "writable_dir (fs w) (source_folder s)" by (simp add: is_dir_iff)
    from create_category_folders_loop_real [OF this, of E "map fst (categories s)"] real
    show ?thesis
      unfolding create_category_folders_def by auto
  qed
qed

lemma snapshot_after_folders:
  assumes "is_dir (fs w) (source_folder s)"
  shows "\<exists>items. iterdir (fs (snd (create_category_folders E s w))) (source_folder s) = Inr items
           \<and> files_to_process (fs (snd (create_category_folders E s w))) items = snapshot s w"
proof -
  from create_category_folders_fresh [OF assms] obtain new where
    n: "snd (create_category_folders E s w) = w\<lparr>fs := fs w @ new\<rparr>" "fresh_dirs (fs w) new"
    by blast
  have it: "iterdir (fs w @ new) (source_folder s)
            = Inr (filter (\<lambda>p. p \<noteq> [] \<and> parent p = source_folder s) (map fst (fs w @ new)))"
    using assms by (intro iterdir_dir is_dir_append)
  have "files_to_process (fs w @ new)
          (filter (\<lambda>p. p \<noteq> [] \<and> parent p = source_folder s) (map fst (fs w @ new)))
        = snapshot s w"
    unfolding snapshot_def by (rule files_to_process_append [OF n(2)])
  with it n(1) show ?thesis by simp
qed

lemma organize_files_snapshot:
  assumes "is_dir (fs w) (source_folder s)"
  shows "organize_files E s w =
           (case create_category_folders E s w of
              (Inl e, w1) \<Rightarrow> (Inl e, s, w1)
            | (Inr u, w1) \<Rightarrow>
                (case process_all E (snapshot s w) (set_processed (length (snapshot s w)) s) w1 of
                   (Inl e, s2, w2) \<Rightarrow> (Inl e, s2, w2)
                 | (Inr u, s2, w2) \<Rightarrow> (Inr True, s2, w2)))"
proof -
  from assms have ex: "exists (fs w) (source_folder s)"
    by (auto simp: is_dir_def exists_def split: option.splits)
  obtain r w1 where c: "create_category_folders E s w = (r, w1)"
    by (cases "create_category_folders E s w")
  from snapshot_after_folders [OF assms, of E] c obtain items where
    "iterdir (fs w1) (source_folder s) = Inr items" "files_to_process (fs w1) items = snapshot s w"
    by auto
  with ex c show ?thesis
    by (cases r) (simp_all add: organize_files_def Let_def)
qed

lemma files_handled_dir:
  assumes "is_dir (fs w) (source_folder s)"
  shows "files_handled E s w =
           (case create_category_folders E s w of
              (Inl e, w1) \<Rightarrow> []
            | (Inr u, w1) \<Rightarrow>
                handled E (snapshot s w) (set_processed (length (snapshot s w)) s) w1)"
proof -
  from assms have ex: "exists (fs w) (source_folder s)"
    by (auto simp: is_dir_def exists_def split: option.splits)
  obtain r w1 where c: "create_category_folders E s w = (r, w1)"
    by (cases "create_category_folders E s w")
  from snapshot_after_folders [OF assms, of E] c obtain items where
    "iterdir (fs w1) (source_folder s) = Inr items" "files_to_process (fs w1) items = snapshot s w"
    by auto
  with ex c show ?thesis
    by (cases r) (simp_all add: files_handled_def Let_def)
qed

lemma files_handled_not_dir:
  assumes "\<not> is_dir (fs w) (source_folder s)"
  shows "files_handled E s w = []"
proof (cases "exists (fs w) (source_folder s)")
  case False
  then show ?thesis by (simp add: files_handled_def)
next
  case True
  with assms obtain d where d: "lookup (fs w) (source_folder s) = Some (File d)"
    by (auto simp: exists_def is_dir_def split: option.splits node.splits)
  from create_category_folders_loop_file [OF d] obtain r where
    r: "create_category_folders E s w = (r, w)"
    unfolding create_category_folders_def by blast
  from d have "iterdir (fs w) (source_folder s) = Inl NotADirectoryError"
    by (simp add: iterdir_def)
  with r show ?thesis
    by (cases r) (simp_all add: files_handled_def)
qed

lemma files_handled_prefix: "\<exists>rest. snapshot s w = files_handled E s w @ rest"
proof (cases "is_dir (fs w) (source_folder s)")
  case False
  then show ?thesis by (simp add: files_handled_not_dir)
next
  case True
  obtain r w1 where c: "create_category_folders E s w = (r, w1)"
    by (cases "create_category_folders E s w")
  with handled_prefix [of "snapshot s w" E "set_processed (length (snapshot s w)) s" w1]
  show ?thesis
    by (cases r) (simp_all add: files_handled_dir [OF True])
qed

lemma files_handled_all:
  assumes "fst (organize_files E s w) = Inr True"
  shows "files_handled E s w = snapshot s w"
proof -
  from assms obtain s' w' where o: "organize_files E s w = (Inr True, s', w')"
    by (cases "organize_files E s w") auto
  from organize_files_returned [OF o] have d: "is_dir (fs w) (source_folder s)" by simp
  obtain r w1 where c: "create_category_folders E s w = (r, w1)"
    by (cases "create_category_folders E s w")
  obtain r2 s2 w2 where p:
    "process_all E (snapshot s w) (set_processed (length (snapshot s w)) s) w1 = (r2, s2, w2)"
    by (cases "process_all E (snapshot s w) (set_processed (length (snapshot s w)) s) w1")
  from o c p organize_files_snapshot [OF d, of E] have "\<exists>u. r = Inr u" "\<exists>u. r2 = Inr u"
    by (cases r; cases r2; simp)+
  then obtain u u2 where "r = Inr u" "r2 = Inr u2" by blast
  with c p handled_all [of E "snapshot s w" "set_processed (length (snapshot s w)) s" w1 u2 s2 w2]
  show ?thesis
    by (simp add: files_handled_dir [OF d])
qed

definition world_bare :: world where
  "world_bare =
     \<lparr>fs = [([], Dir 4096), ([''home''], Dir 4096), ([''home'', ''u''], Dir 4096),
             (downloads, Dir 4096),
             (downloads @ [''a.txt''], regular ''AAAAA'' 10),
             (downloads @ [''b.txt''], regular ''BB'' 11)],
      tick = 0\<rparr>"

lemma bare_dry:
  "fst (organize_files example_env (FileOrganizer_init downloads True) world_bare)
     = Inl FileNotFoundError
   \<and> files_handled example_env (FileOrganizer_init downloads True) world_bare
     = [downloads @ [''a.txt'']]
   \<and> snapshot (FileOrganizer_init downloads True) world_bare
     = [downloads @ [''a.txt''], downloads @ [''b.txt'']]"
  by (simp add: snapshot_def files_handled_def world_bare_def example_env_def fs_defs run_defs)

text \<open>
  Claim C8, amended. The snapshot holds exactly the regular files directly inside the
  source folder whose name does not start with a dot and whose suffix is not \<open>.log\<close>;
  the report file is not excluded. It is taken once, after the category folders have
  been created, which appends directories at free paths and so changes no member of it:
  a run on a directory is \<open>process_all\<close> over the snapshot of the file system the run
  started from. The files handled are a prefix of the snapshot, in its order and without
  repetition; they are the whole snapshot when the run returns True. A file that
  processing moves is therefore not met again.
\<close>

theorem snapshot_taken_once:
  "(p \<in> set (snapshot s w) \<longleftrightarrow>
       p \<noteq> [] \<and> parent p = source_folder s \<and> is_file (fs w) p
       \<and> \<not> startswith_dot (name p) \<and> suffix p \<noteq> ''.log'')
   \<and> (distinct (map fst (fs w)) \<longrightarrow> distinct (snapshot s w))
   \<and> (is_dir (fs w) (source_folder s) \<longrightarrow>
        (\<exists>new. snd (create_category_folders E s w) = w\<lparr>fs := fs w @ new\<rparr>
                \<and> fresh_dirs (fs w) new)
        \<and> organize_files E s w =
            (case create_category_folders E s w of
               (Inl e, w1) \<Rightarrow> (Inl e, s, w1)
             | (Inr u, w1) \<Rightarrow>
                 (case process_all E (snapshot s w) (set_processed (length (snapshot s w)) s) w1 of
                    (Inl e, s2, w2) \<Rightarrow> (Inl e, s2, w2)
                  | (Inr u, s2, w2) \<Rightarrow> (Inr True, s2, w2)))
        \<and> files_handled E s w =
            (case create_category_folders E s w of
               (Inl e, w1) \<Rightarrow> []
             | (Inr u, w1) \<Rightarrow>
                 handled E (snapshot s w) (set_processed (length (snapshot s w)) s) w1))
   \<and> (\<exists>rest. snapshot s w = files_handled E s w @ rest)
   \<and> (fst (organize_files E s w) = Inr True \<longrightarrow> files_handled E s w = snapshot s w)"
proof -
  have "is_dir (fs w) (source_folder s) \<Longrightarrow>
        \<exists>new. snd (create_category_folders E s w) = w\<lparr>fs := fs w @ new\<rparr> \<and> fresh_dirs (fs w) new"
    using create_category_folders_fresh [of w s E] by blast
  then show ?thesis
    using in_snapshot_iff [of p s w] snapshot_distinct [of w s] organize_files_snapshot [of w s E]
      files_handled_dir [of w s E] files_handled_prefix [of s w E] files_handled_all [of E s w]
    by blast
qed

theorem snapshot_taken_once_witness:
  "distinct (map fst (fs world_twins))
   \<and> is_dir (fs world_twins) (source_folder (FileOrganizer_init downloads False))
   \<and> fst (organize_files example_env (FileOrganizer_init downloads False) world_twins) = Inr True
   \<and> snapshot (FileOrganizer_init downloads False) world_twins
       = [downloads @ [''a.txt''], downloads @ [''a_1.txt''], downloads @ [''b.txt''],
          downloads @ [''c.xyz'']]
   \<and> files_handled example_env (FileOrganizer_init downloads False) world_twins
       = [downloads @ [''a.txt''], downloads @ [''a_1.txt''], downloads @ [''b.txt''],
          downloads @ [''c.xyz'']]
   \<and> distinct (snapshot (FileOrganizer_init downloads False) world_twins)
   \<and> downloads @ [''Documents'', ''a_1.txt'']
       \<notin> set (files_handled example_env (FileOrganizer_init downloads False) world_twins)
   \<and> fst (organize_files example_env (FileOrganizer_init downloads True) world_bare)
       = Inl FileNotFoundError
   \<and> files_handled example_env (FileOrganizer_init downloads True) world_bare
       = [downloads @ [''a.txt'']]
   \<and> snapshot (FileOrganizer_init downloads True) world_bare
       = [downloads @ [''a.txt''], downloads @ [''b.txt'']]"
proof -
  have d: "distinct (map fst (fs world_twins))"
    by (simp add: world_twins_def downloads_def)
  have i: "is_dir (fs world_twins) (source_folder (FileOrganizer_init downloads False))"
    by (simp add: world_twins_def FileOrganizer_init_def fs_defs)
  from snapshot_taken_once [of "downloads @ [''a.txt'']" "FileOrganizer_init downloads False"
         world_twins example_env] d twins_real
  have "distinct (snapshot (FileOrganizer_init downloads False) world_twins)
        \<and> files_handled example_env (FileOrganizer_init downloads False) world_twins
            = snapshot (FileOrganizer_init downloads False) world_twins"
    by blast
  with d i twins_real twins_snapshot [of False] bare_dry
  show ?thesis by simp
qed

section \<open>The bulk pass\<close>

subsection \<open>Deleting a list of files\<close>








subsection \<open>The order within a group\<close>


text \<open>
  The members of a group in the order \<open>remove_duplicates\<close> gives them: the first is the
  file it keeps, the others are the files it deletes.
\<close>

definition group_order :: "bool \<Rightarrow> filesystem \<Rightarrow> path list \<Rightarrow> path list" where
  "group_order keep_oldest fsys files =
     (case with_mtime fsys files of
        Inl e \<Rightarrow> []
      | Inr files_with_mtime \<Rightarrow> map fst (keep_order keep_oldest files_with_mtime))"






lemma distinct_keep_order [simp]: "distinct (keep_order keep_oldest xs) = distinct xs"
  by (simp add: keep_order_def Let_def)








subsection \<open>The groups\<close>







subsection \<open>What \<open>remove_duplicates\<close> deletes\<close>

text \<open>The members of the groups that are not the first of their group, group by group.\<close>

definition group_rests :: "bool \<Rightarrow> filesystem \<Rightarrow> (string \<times> path list) list \<Rightarrow> path list" where
  "group_rests keep_oldest fsys groups =
     concat (map (\<lambda>(file_hash, files). tl (group_order keep_oldest fsys files)) groups)"

lemma group_rests_Nil [simp]: "group_rests keep_oldest fsys [] = []"
  by (simp add: group_rests_def)

lemma group_rests_Cons [simp]:
  "group_rests keep_oldest fsys ((h, files) # gs)
   = tl (group_order keep_oldest fsys files) @ group_rests keep_oldest fsys gs"
  by (simp add: group_rests_def)










text \<open>The recursive search, the one \<open>remove_duplicates\<close> uses, always returns its groups.\<close>

lemma find_all_duplicates_total: "\<exists>groups. find_all_duplicates E True s w = Inr groups"
  by (simp add: find_all_duplicates_def Let_def)



end
